theory Spec2Isabelle
  imports Main "HOL-Library.Multiset"

begin

section \<open>Data model of components.py\<close>

text \<open>
  \<^verbatim>\<open>CellState\<close>, \<^verbatim>\<open>Cell\<close> and \<^verbatim>\<open>Board\<close> are classes with mutable attributes; each
  becomes a record. Python integers are unbounded: \<open>int\<close>. The attribute
  \<^verbatim>\<open>_mines_placed\<close> is written \<open>mines_placed\<close>.
\<close>

record cell_state =
  is_mine :: bool
  is_revealed :: bool
  is_flagged :: bool
  adjacent :: int

record cell =
  col :: int
  row :: int
  state :: cell_state

record board =
  cols :: int
  rows :: int
  num_mines :: int
  cells :: "cell list"
  mines_placed :: bool
  revealed_count :: int
  game_over :: bool
  win :: bool

text \<open>The two sources of randomness, \<^verbatim>\<open>random.shuffle\<close> and \<^verbatim>\<open>random.choice\<close>, are
  parameters of the model: a function that reorders the pool, and the position drawn by
  \<^verbatim>\<open>choice\<close>.\<close>

type_synonym shuffle = "(int \<times> int) list \<Rightarrow> (int \<times> int) list"

definition new_cell_state :: cell_state where
  "new_cell_state = \<lparr>is_mine = False, is_revealed = False, is_flagged = False, adjacent = 0\<rparr>"

definition new_cell :: "int \<times> int \<Rightarrow> cell" where
  "new_cell p = \<lparr>col = fst p, row = snd p, state = new_cell_state\<rparr>"

text \<open>\<^verbatim>\<open>range(n)\<close>: the integers from 0 below \<open>n\<close>, none when \<open>n \<le> 0\<close>.\<close>

definition py_range :: "int \<Rightarrow> int list" where
  "py_range n = map int [0..<nat n]"

text \<open>\<^verbatim>\<open>[(c, r) for r in range(rows) for c in range(cols)]\<close>\<close>

definition all_positions :: "int \<Rightarrow> int \<Rightarrow> (int \<times> int) list" where
  "all_positions cs rs = concat (map (\<lambda>r. map (\<lambda>c. (c, r)) (py_range cs)) (py_range rs))"

definition new_board :: "int \<Rightarrow> int \<Rightarrow> int \<Rightarrow> board" where
  "new_board cs rs mines =
     \<lparr>cols = cs, rows = rs, num_mines = mines,
      cells = map new_cell (all_positions cs rs),
      mines_placed = False, revealed_count = 0, game_over = False, win = False\<rparr>"

section \<open>Coordinates and list access\<close>

definition index :: "board \<Rightarrow> int \<Rightarrow> int \<Rightarrow> int" where
  "index b c r = r * cols b + c"

definition is_inbounds :: "board \<Rightarrow> int \<Rightarrow> int \<Rightarrow> bool" where
  "is_inbounds b c r \<longleftrightarrow> 0 \<le> c \<and> c < cols b \<and> 0 \<le> r \<and> r < rows b"

text \<open>Python's \<^verbatim>\<open>xs[i]\<close>: a negative index counts from the end, and an index outside
  \<open>-len \<le> i < len\<close> raises IndexError, here \<open>None\<close>.\<close>

definition py_index :: "'a list \<Rightarrow> int \<Rightarrow> nat option" where
  "py_index xs i =
     (let n = int (length xs) in
      if 0 \<le> i \<and> i < n then Some (nat i)
      else if - n \<le> i \<and> i < 0 then Some (nat (n + i))
      else None)"

text \<open>\<^verbatim>\<open>self.cells[self.index(col, row)]\<close>\<close>

definition get_cell :: "board \<Rightarrow> int \<Rightarrow> int \<Rightarrow> cell option" where
  "get_cell b c r = map_option (\<lambda>k. cells b ! k) (py_index (cells b) (index b c r))"

text \<open>An assignment to an attribute of \<^verbatim>\<open>self.cells[self.index(col, row)].state\<close>: the
  cell objects of a board are pairwise distinct, so only that entry of the list changes.\<close>

definition upd_state :: "board \<Rightarrow> int \<Rightarrow> int \<Rightarrow> (cell_state \<Rightarrow> cell_state) \<Rightarrow> board option" where
  "upd_state b c r f =
     map_option (\<lambda>k. b\<lparr>cells := (cells b)[k := (cells b ! k)\<lparr>state := f (state (cells b ! k))\<rparr>]\<rparr>)
       (py_index (cells b) (index b c r))"

definition deltas :: "(int \<times> int) list" where
  "deltas = [(-1, -1), (0, -1), (1, -1), (-1, 0), (1, 0), (-1, 1), (0, 1), (1, 1)]"

definition neighbors :: "board \<Rightarrow> int \<Rightarrow> int \<Rightarrow> (int \<times> int) list" where
  "neighbors b c r =
     filter (\<lambda>p. is_inbounds b (fst p) (snd p)) (map (\<lambda>d. (c + fst d, r + snd d)) deltas)"

section \<open>Mine placement\<close>

text \<open>Python's \<^verbatim>\<open>xs[:n]\<close>: for a negative \<open>n\<close> all but the last \<open>-n\<close> elements.\<close>

definition py_take :: "int \<Rightarrow> 'a list \<Rightarrow> 'a list" where
  "py_take n xs = (if 0 \<le> n then take (nat n) xs else take (length xs - nat (- n)) xs)"

text \<open>The loop over \<^verbatim>\<open>mine_positions\<close>.\<close>

fun set_mines :: "board \<Rightarrow> (int \<times> int) list \<Rightarrow> board option" where
  "set_mines b [] = Some b"
| "set_mines b (p # ps) =
     (case upd_state b (fst p) (snd p) (\<lambda>s. s\<lparr>is_mine := True\<rparr>) of
        None \<Rightarrow> None
      | Some b' \<Rightarrow> set_mines b' ps)"

text \<open>The innermost loop of the adjacency computation: \<^verbatim>\<open>count\<close> (here \<open>cnt\<close>) goes up by one for
  each neighbor that is a mine.\<close>

fun count_mines :: "board \<Rightarrow> (int \<times> int) list \<Rightarrow> int \<Rightarrow> int option" where
  "count_mines b [] cnt = Some cnt"
| "count_mines b (p # ps) cnt =
     (case get_cell b (fst p) (snd p) of
        None \<Rightarrow> None
      | Some ncell \<Rightarrow> count_mines b ps (if is_mine (state ncell) then cnt + 1 else cnt))"

text \<open>The body of the two nested loops over \<open>r\<close> and \<open>c\<close>.\<close>

definition adjacent_step :: "board \<Rightarrow> int \<times> int \<Rightarrow> board option" where
  "adjacent_step b p =
     (case get_cell b (fst p) (snd p) of
        None \<Rightarrow> None
      | Some cell \<Rightarrow>
          if is_mine (state cell) then Some b
          else (case count_mines b (neighbors b (fst p) (snd p)) 0 of
                  None \<Rightarrow> None
                | Some cnt \<Rightarrow> upd_state b (fst p) (snd p) (\<lambda>s. s\<lparr>adjacent := cnt\<rparr>)))"

fun compute_adjacent :: "board \<Rightarrow> (int \<times> int) list \<Rightarrow> board option" where
  "compute_adjacent b [] = Some b"
| "compute_adjacent b (p # ps) =
     (case adjacent_step b p of None \<Rightarrow> None | Some b' \<Rightarrow> compute_adjacent b' ps)"

text \<open>\<^verbatim>\<open>mine_positions\<close> is a Python set; the loop over it sets \<open>is_mine\<close> at each of
  its elements, which gives the same board in every iteration order, so the model walks
  the elements in the order of the shuffled pool, without repetitions.\<close>

definition place_mines :: "shuffle \<Rightarrow> board \<Rightarrow> int \<Rightarrow> int \<Rightarrow> board option" where
  "place_mines shuf b safe_col safe_row =
     (let forbidden = (safe_col, safe_row) # neighbors b safe_col safe_row;
          pool = filter (\<lambda>p. p \<notin> set forbidden) (all_positions (cols b) (rows b));
          mine_positions = remdups (py_take (num_mines b) (shuf pool))
      in case set_mines b mine_positions of
           None \<Rightarrow> None
         | Some b1 \<Rightarrow>
             (case compute_adjacent b1 (all_positions (cols b1) (rows b1)) of
                None \<Rightarrow> None
              | Some b2 \<Rightarrow> Some (b2\<lparr>mines_placed := True\<rparr>)))"

section \<open>Reveal\<close>

definition reveal_all_mines :: "board \<Rightarrow> board" where
  "reveal_all_mines b =
     b\<lparr>cells := map (\<lambda>x. if is_mine (state x) then x\<lparr>state := (state x)\<lparr>is_revealed := True\<rparr>\<rparr> else x)
                    (cells b)\<rparr>"

definition check_win :: "board \<Rightarrow> board" where
  "check_win b =
     (let total_cells = cols b * rows b in
      if revealed_count b = total_cells - num_mines b \<and> \<not> game_over b then
        b\<lparr>win := True,
          cells := map (\<lambda>x. if \<not> is_revealed (state x) \<and> \<not> is_mine (state x)
                             then x\<lparr>state := (state x)\<lparr>is_revealed := True\<rparr>\<rparr> else x)
                       (cells b)\<rparr>
      else b)"

text \<open>\<^verbatim>\<open>curr.state.is_revealed = True; self.revealed_count += 1\<close>\<close>

definition mark_revealed :: "board \<Rightarrow> int \<Rightarrow> int \<Rightarrow> board option" where
  "mark_revealed b c r =
     map_option (\<lambda>b'. b'\<lparr>revealed_count := revealed_count b' + 1\<rparr>)
       (upd_state b c r (\<lambda>s. s\<lparr>is_revealed := True\<rparr>))"

text \<open>The loop that pushes the neighbors that are neither revealed nor flagged. The
  stack is a Python list whose top is its last element; in the model the top of the
  stack is the head of the list.\<close>

fun push_neighbors :: "board \<Rightarrow> (int \<times> int) list \<Rightarrow> (int \<times> int) list \<Rightarrow> (int \<times> int) list option" where
  "push_neighbors b [] stack = Some stack"
| "push_neighbors b (p # ps) stack =
     (case get_cell b (fst p) (snd p) of
        None \<Rightarrow> None
      | Some ncell \<Rightarrow>
          push_neighbors b ps
            (if \<not> is_revealed (state ncell) \<and> \<not> is_flagged (state ncell) then p # stack else stack))"

definition unrevealed :: "board \<Rightarrow> nat" where
  "unrevealed b = length (filter (\<lambda>x. \<not> is_revealed (state x)) (cells b))"

text \<open>The flood fill: the \<^verbatim>\<open>while stack:\<close> loop of \<^verbatim>\<open>reveal\<close>. Every iteration either
  drops the top of the stack or reveals a cell that was not revealed, so the loop ends.\<close>

function flood :: "board \<Rightarrow> (int \<times> int) list \<Rightarrow> board option" where
  "flood b [] = Some b"
| "flood b (p # stack) =
     (case get_cell b (fst p) (snd p) of
        None \<Rightarrow> None
      | Some cur \<Rightarrow>
          if is_revealed (state cur) \<or> is_flagged (state cur) then flood b stack
          else (case mark_revealed b (fst p) (snd p) of
                  None \<Rightarrow> None
                | Some b' \<Rightarrow>
                    if adjacent (state cur) = 0 then
                      (case push_neighbors b' (neighbors b' (fst p) (snd p)) stack of
                         None \<Rightarrow> None
                       | Some stack' \<Rightarrow> flood b' stack')
                    else flood b' stack))"
  by pat_completeness auto

termination
proof -
  have dec: "unrevealed b' < unrevealed b"
    if g: "get_cell b c r = Some cur" and u: "\<not> is_revealed (state cur)"
      and m: "mark_revealed b c r = Some b'" for b b' c r cur
  proof -
    from g obtain k where k: "py_index (cells b) (index b c r) = Some k" "cur = cells b ! k"
      by (auto simp: get_cell_def)
    have lt: "k < length (cells b)"
      using k(1) by (auto simp: py_index_def Let_def split: if_splits)
    have cs: "cells b' = (cells b)[k := (cells b ! k)\<lparr>state := (state (cells b ! k))\<lparr>is_revealed := True\<rparr>\<rparr>]"
      using m k by (auto simp: mark_revealed_def upd_state_def)
    have parts: "cells b = take k (cells b) @ cells b ! k # drop (Suc k) (cells b)"
      using lt by (simp add: id_take_nth_drop)
    have "unrevealed b = length (filter (\<lambda>x. \<not> is_revealed (state x)) (take k (cells b))) + 1
          + length (filter (\<lambda>x. \<not> is_revealed (state x)) (drop (Suc k) (cells b)))"
      unfolding unrevealed_def using u k(2) by (subst parts) simp
    moreover have "unrevealed b' = length (filter (\<lambda>x. \<not> is_revealed (state x)) (take k (cells b)))
          + length (filter (\<lambda>x. \<not> is_revealed (state x)) (drop (Suc k) (cells b)))"
      unfolding unrevealed_def cs using lt by (simp add: upd_conv_take_nth_drop)
    ultimately show ?thesis by simp
  qed
  show ?thesis
    by (relation "measures [\<lambda>(b, s). unrevealed b, \<lambda>(b, s). length s]") (auto dest: dec)
qed

definition reveal :: "shuffle \<Rightarrow> board \<Rightarrow> int \<Rightarrow> int \<Rightarrow> board option" where
  "reveal shuf b c r =
     (if \<not> is_inbounds b c r then Some b
      else
        case (if \<not> mines_placed b then place_mines shuf b c r else Some b) of
          None \<Rightarrow> None
        | Some b1 \<Rightarrow>
            (case get_cell b1 c r of
               None \<Rightarrow> None
             | Some cell \<Rightarrow>
                 if is_revealed (state cell) \<or> is_flagged (state cell) then Some b1
                 else if is_mine (state cell) then
                   (case upd_state b1 c r (\<lambda>s. s\<lparr>is_revealed := True\<rparr>) of
                      None \<Rightarrow> None
                    | Some b2 \<Rightarrow> Some (reveal_all_mines (b2\<lparr>game_over := True\<rparr>)))
                 else
                   (case flood b1 [(c, r)] of
                      None \<Rightarrow> None
                    | Some b3 \<Rightarrow> Some (check_win b3))))"

section \<open>Flags and hints\<close>

definition toggle_flag :: "board \<Rightarrow> int \<Rightarrow> int \<Rightarrow> board option" where
  "toggle_flag b c r =
     (if \<not> is_inbounds b c r then Some b
      else
        case get_cell b c r of
          None \<Rightarrow> None
        | Some cell \<Rightarrow>
            if is_revealed (state cell) then Some b
            else upd_state b c r (\<lambda>s. s\<lparr>is_flagged := \<not> is_flagged s\<rparr>))"

definition flagged_count :: "board \<Rightarrow> int" where
  "flagged_count b = int (length (filter (\<lambda>x. is_flagged (state x)) (cells b)))"

text \<open>\<^verbatim>\<open>random.choice(safe_unrevealed)\<close> returns one element of a list that is not empty:
  the element at \<open>pick mod length\<close>, for the number \<open>pick\<close> that the generator draws.\<close>

definition hint_reveal :: "shuffle \<Rightarrow> nat \<Rightarrow> board \<Rightarrow> board option" where
  "hint_reveal shuf pick b =
     (if \<not> mines_placed b \<or> game_over b \<or> win b then Some b
      else
        let safe_unrevealed =
              filter (\<lambda>x. \<not> is_mine (state x) \<and> \<not> is_revealed (state x) \<and> \<not> is_flagged (state x))
                (cells b)
        in if safe_unrevealed = [] then Some b
           else
             let hint_cell = safe_unrevealed ! (pick mod length safe_unrevealed)
             in reveal shuf b (col hint_cell) (row hint_cell))"

section \<open>Sequences of calls\<close>

text \<open>The three mutating calls of the public interface, and a board driven by a list of
  them from its construction. A call that raises ends the run with \<open>None\<close>.\<close>

datatype op = Reveal int int | ToggleFlag int int | HintReveal nat

fun step :: "shuffle \<Rightarrow> board \<Rightarrow> op \<Rightarrow> board option" where
  "step shuf b (Reveal c r) = reveal shuf b c r"
| "step shuf b (ToggleFlag c r) = toggle_flag b c r"
| "step shuf b (HintReveal pick) = hint_reveal shuf pick b"

fun run :: "shuffle \<Rightarrow> board \<Rightarrow> op list \<Rightarrow> board option" where
  "run shuf b [] = Some b"
| "run shuf b (x # xs) = (case step shuf b x of None \<Rightarrow> None | Some b' \<Rightarrow> run shuf b' xs)"

section \<open>Notions of the verification\<close>

text \<open>The board that the constructor builds keeps its shape for ever: one cell for each
  position, in row-major order, each cell carrying its own coordinates.\<close>

definition wf_board :: "board \<Rightarrow> bool" where
  "wf_board b \<longleftrightarrow>
     length (cells b) = nat (cols b) * nat (rows b) \<and>
     (\<forall>i < length (cells b). col (cells b ! i) = int i mod cols b \<and> row (cells b ! i) = int i div cols b)"

text \<open>The cell object of a position, and the bounds test on a pair.\<close>

definition cell_at :: "board \<Rightarrow> int \<times> int \<Rightarrow> cell" where
  "cell_at b p = cells b ! nat (index b (fst p) (snd p))"

definition inb :: "board \<Rightarrow> int \<times> int \<Rightarrow> bool" where
  "inb b p = is_inbounds b (fst p) (snd p)"

text \<open>The state of the cell at a position, the board after an assignment to the state
  of the cell at a position, and the board after the two assignments of the flood fill.\<close>

definition st :: "board \<Rightarrow> int \<times> int \<Rightarrow> cell_state" where
  "st b p = state (cell_at b p)"

definition upd_at :: "board \<Rightarrow> int \<times> int \<Rightarrow> (cell_state \<Rightarrow> cell_state) \<Rightarrow> board" where
  "upd_at b p f =
     b\<lparr>cells := (cells b)[nat (index b (fst p) (snd p)) := (cell_at b p)\<lparr>state := f (st b p)\<rparr>]\<rparr>"

definition mark :: "board \<Rightarrow> int \<times> int \<Rightarrow> board" where
  "mark b p = (upd_at b p (\<lambda>s. s\<lparr>is_revealed := True\<rparr>))\<lparr>revealed_count := revealed_count b + 1\<rparr>"

definition hidden :: "board \<Rightarrow> int \<times> int \<Rightarrow> bool" where
  "hidden b p \<longleftrightarrow> \<not> is_revealed (st b p) \<and> \<not> is_flagged (st b p)"

text \<open>Two boards of the same shape.\<close>

definition same_shape :: "board \<Rightarrow> board \<Rightarrow> bool" where
  "same_shape b b' \<longleftrightarrow> cols b' = cols b \<and> rows b' = rows b"

text \<open>The number of cells whose state satisfies a predicate.\<close>

definition count_cells :: "(cell_state \<Rightarrow> bool) \<Rightarrow> board \<Rightarrow> int" where
  "count_cells P b = int (length (filter (\<lambda>x. P (state x)) (cells b)))"

text \<open>What one iteration of the loop pushes after it has revealed the cell at \<open>p\<close>.\<close>

definition pushes :: "board \<Rightarrow> int \<times> int \<Rightarrow> (int \<times> int) list" where
  "pushes b p =
     (if adjacent (st b p) = 0 then rev (filter (hidden b) (neighbors b (fst p) (snd p))) else [])"

text \<open>A board that differs from another one only in cells that have become revealed, and
  in the counter.\<close>

definition rev_ext :: "board \<Rightarrow> board \<Rightarrow> bool" where
  "rev_ext b b' \<longleftrightarrow>
     wf_board b' \<and> same_shape b b' \<and> num_mines b' = num_mines b \<and>
     mines_placed b' = mines_placed b \<and> game_over b' = game_over b \<and> win b' = win b \<and>
     (\<forall>p. inb b p \<longrightarrow>
        is_mine (st b' p) = is_mine (st b p) \<and> is_flagged (st b' p) = is_flagged (st b p) \<and>
        adjacent (st b' p) = adjacent (st b p) \<and>
        (is_revealed (st b p) \<longrightarrow> is_revealed (st b' p)))"

text \<open>The cells that a flood fill from the positions \<open>S\<close> reaches: it starts at the
  positions of \<open>S\<close> that are neither revealed nor flagged, and goes on from a reached cell
  with no adjacent mine to each neighbor that is neither revealed nor flagged.\<close>

inductive_set flood_set :: "board \<Rightarrow> (int \<times> int) set \<Rightarrow> (int \<times> int) set"
  for b :: board and S :: "(int \<times> int) set" where
  start: "p \<in> S \<Longrightarrow> hidden b p \<Longrightarrow> p \<in> flood_set b S"
| spread: "p \<in> flood_set b S \<Longrightarrow> adjacent (st b p) = 0 \<Longrightarrow>
           q \<in> set (neighbors b (fst p) (snd p)) \<Longrightarrow> hidden b q \<Longrightarrow> q \<in> flood_set b S"

declare flood.simps(2) [simp del]

text \<open>The number of neighbors of a position that are mines; the adjacency counts are
  right when the count of each cell that is not a mine is that number.\<close>

definition mine_neighbors :: "board \<Rightarrow> int \<times> int \<Rightarrow> int" where
  "mine_neighbors b p = int (length (filter (\<lambda>q. is_mine (st b q)) (neighbors b (fst p) (snd p))))"

definition adj_ok :: "board \<Rightarrow> bool" where
  "adj_ok b \<longleftrightarrow> (\<forall>p. inb b p \<longrightarrow> \<not> is_mine (st b p) \<longrightarrow> adjacent (st b p) = mine_neighbors b p)"

text \<open>The pool of \<^verbatim>\<open>place_mines\<close>, and the positions it draws from the shuffled pool.\<close>

definition pool :: "board \<Rightarrow> int \<Rightarrow> int \<Rightarrow> (int \<times> int) list" where
  "pool b c r = filter (\<lambda>p. p \<notin> set ((c, r) # neighbors b c r)) (all_positions (cols b) (rows b))"

definition drawn :: "shuffle \<Rightarrow> board \<Rightarrow> int \<Rightarrow> int \<Rightarrow> (int \<times> int) set" where
  "drawn shuf b c r = set (py_take (num_mines b) (shuf (pool b c r)))"

text \<open>A shuffle returns a permutation of its argument.\<close>

definition is_shuffle :: "shuffle \<Rightarrow> bool" where
  "is_shuffle shuf \<longleftrightarrow> (\<forall>xs. mset (shuf xs) = mset xs)"

text \<open>Two boards that differ only in the cells, and there neither in \<open>is_revealed\<close> nor in
  \<open>is_flagged\<close>.\<close>

definition same_scalars :: "board \<Rightarrow> board \<Rightarrow> bool" where
  "same_scalars b b' \<longleftrightarrow>
     wf_board b' \<and> same_shape b b' \<and> num_mines b' = num_mines b \<and>
     mines_placed b' = mines_placed b \<and> revealed_count b' = revealed_count b \<and>
     game_over b' = game_over b \<and> win b' = win b"

text \<open>A loop over \<^verbatim>\<open>self.cells\<close> that rewrites the state of each cell.\<close>

definition map_state :: "(cell_state \<Rightarrow> cell_state) \<Rightarrow> board \<Rightarrow> board" where
  "map_state g b = b\<lparr>cells := map (\<lambda>x. x\<lparr>state := g (state x)\<rparr>) (cells b)\<rparr>"

definition sweep_mines :: "cell_state \<Rightarrow> cell_state" where
  "sweep_mines s = (if is_mine s then s\<lparr>is_revealed := True\<rparr> else s)"

definition sweep_safe :: "cell_state \<Rightarrow> cell_state" where
  "sweep_safe s = (if \<not> is_revealed s \<and> \<not> is_mine s then s\<lparr>is_revealed := True\<rparr> else s)"

definition win_now :: "board \<Rightarrow> bool" where
  "win_now b \<longleftrightarrow> revealed_count b = cols b * rows b - num_mines b \<and> \<not> game_over b"

definition fresh :: "board \<Rightarrow> bool" where
  "fresh b \<longleftrightarrow>
     (\<forall>p. inb b p \<longrightarrow> \<not> is_mine (st b p) \<and> \<not> is_revealed (st b p)) \<and>
     revealed_count b = 0 \<and> \<not> game_over b \<and> \<not> win b"

definition count_ok :: "board \<Rightarrow> bool" where
  "count_ok b \<longleftrightarrow> revealed_count b = count_cells (\<lambda>s. is_revealed s \<and> \<not> is_mine s) b"

definition mines_hidden :: "board \<Rightarrow> bool" where
  "mines_hidden b \<longleftrightarrow> (\<forall>p. inb b p \<longrightarrow> is_mine (st b p) \<longrightarrow> \<not> is_revealed (st b p))"

definition mines_shown :: "board \<Rightarrow> bool" where
  "mines_shown b \<longleftrightarrow> (\<forall>p. inb b p \<longrightarrow> is_mine (st b p) \<longrightarrow> is_revealed (st b p))"

definition excl :: "board \<Rightarrow> bool" where
  "excl b \<longleftrightarrow> (\<forall>p. inb b p \<longrightarrow> \<not> (is_revealed (st b p) \<and> is_flagged (st b p)))"

definition safe_shown :: "board \<Rightarrow> bool" where
  "safe_shown b \<longleftrightarrow> (\<forall>p. inb b p \<longrightarrow> \<not> is_mine (st b p) \<longrightarrow> is_revealed (st b p))"

definition board_inv :: "board \<Rightarrow> bool" where
  "board_inv b \<longleftrightarrow>
     wf_board b \<and>
     (\<not> mines_placed b \<longrightarrow> fresh b) \<and>
     (mines_placed b \<longrightarrow> adj_ok b) \<and>
     (\<not> win b \<longrightarrow> count_ok b) \<and>
     (\<not> game_over b \<longrightarrow> mines_hidden b) \<and>
     (game_over b \<longrightarrow> mines_shown b) \<and>
     (\<not> game_over b \<and> \<not> win b \<longrightarrow> excl b) \<and>
     (win b \<longrightarrow> safe_shown b)"

text \<open>Two boards with the same mines and the same adjacency counts.\<close>

definition same_mines :: "board \<Rightarrow> board \<Rightarrow> bool" where
  "same_mines b b' \<longleftrightarrow>
     same_shape b b' \<and>
     (\<forall>q. inb b q \<longrightarrow> is_mine (st b' q) = is_mine (st b q) \<and> adjacent (st b' q) = adjacent (st b q))"

definition lose :: "board \<Rightarrow> int \<times> int \<Rightarrow> board" where
  "lose b p = map_state sweep_mines ((upd_at b p (\<lambda>s. s\<lparr>is_revealed := True\<rparr>))\<lparr>game_over := True\<rparr>)"

text \<open>From one board to a later one: the shape and the number of mines stay, the latch
  and the two final flags are never cleared, \<open>win\<close> is not set once \<open>game_over\<close> is,
  a revealed cell stays revealed, and the mines stay where they were placed.\<close>

definition progress :: "board \<Rightarrow> board \<Rightarrow> bool" where
  "progress b b' \<longleftrightarrow>
     same_shape b b' \<and> num_mines b' = num_mines b \<and>
     (mines_placed b \<longrightarrow> mines_placed b') \<and>
     (game_over b \<longrightarrow> game_over b') \<and> (win b \<longrightarrow> win b') \<and>
     (game_over b \<longrightarrow> win b' = win b) \<and>
     (\<forall>q. inb b q \<longrightarrow>
        (is_revealed (st b q) \<longrightarrow> is_revealed (st b' q)) \<and>
        (mines_placed b \<longrightarrow> is_mine (st b' q) = is_mine (st b q)))"

text \<open>The number of grid positions outside the forbidden set, which holds the safe cell
  and its in-bounds neighbors.\<close>

definition pool_size :: "board \<Rightarrow> int \<Rightarrow> int \<Rightarrow> int" where
  "pool_size b c r =
     int (length (filter (\<lambda>p. p \<noteq> (c, r) \<and> p \<notin> set (neighbors b c r))
                    (all_positions (cols b) (rows b))))"

text \<open>Every cell that is not a mine carries the exact number of its neighbors that are
  mines, a number from 0 to 8.\<close>

definition adjacent_exact :: "board \<Rightarrow> bool" where
  "adjacent_exact b \<longleftrightarrow>
     (\<forall>x\<in>set (cells b). \<not> is_mine (state x) \<longrightarrow>
        adjacent (state x) = mine_neighbors b (col x, row x) \<and>
        0 \<le> adjacent (state x) \<and> adjacent (state x) \<le> 8)"

text \<open>The region of the claim: the cell itself, and every neighbor of a cell of the region
  that has no adjacent mine. From a cell with no adjacent mine this is its connected region
  of such cells together with the cells that border the region.\<close>

inductive_set zero_closure :: "board \<Rightarrow> int \<times> int \<Rightarrow> (int \<times> int) set"
  for b :: board and p :: "int \<times> int" where
  origin: "p \<in> zero_closure b p"
| border: "q \<in> zero_closure b p \<Longrightarrow> adjacent (st b q) = 0 \<Longrightarrow>
           q' \<in> set (neighbors b (fst q) (snd q)) \<Longrightarrow> q' \<in> zero_closure b p"

text \<open>The board holds as many mines as the constructor was given.\<close>

definition holds_all_mines :: "board \<Rightarrow> bool" where
  "holds_all_mines b \<longleftrightarrow> count_cells is_mine b = num_mines b"

text \<open>The pool was too small: every cell is a mine but one cell and its neighbors.\<close>

definition pool_all_mined :: "board \<Rightarrow> bool" where
  "pool_all_mined b \<longleftrightarrow>
     (\<exists>s. inb b s \<and>
        (\<forall>p. inb b p \<longrightarrow> is_mine (st b p) = (p \<noteq> s \<and> p \<notin> set (neighbors b (fst s) (snd s)))))"

text \<open>The invariant of the board, together with what a board that holds \<open>num_mines\<close>
  mines keeps after a win, and with the two ways in which a placement ends.\<close>

definition full_inv :: "board \<Rightarrow> bool" where
  "full_inv b \<longleftrightarrow>
     board_inv b \<and>
     (holds_all_mines b \<longrightarrow> count_ok b) \<and>
     (holds_all_mines b \<and> \<not> game_over b \<longrightarrow> excl b) \<and>
     (mines_placed b \<longrightarrow> holds_all_mines b \<or> pool_all_mined b \<or> num_mines b < 0)"

section \<open>Example boards\<close>

text \<open>The boards of the claims are the boards that a list of calls reaches from a new
  board, with a shuffle that permutes the pool. The examples use the shuffle that leaves the
  pool in its order.\<close>

definition no_shuffle :: shuffle where
  "no_shuffle xs = xs"

text \<open>A cell, from its coordinates and the four fields of its state.\<close>

definition cell_of :: "int \<Rightarrow> int \<Rightarrow> bool \<Rightarrow> bool \<Rightarrow> bool \<Rightarrow> int \<Rightarrow> cell" where
  "cell_of c r m rv f a =
     \<lparr>col = c, row = r, state = \<lparr>is_mine = m, is_revealed = rv, is_flagged = f, adjacent = a\<rparr>\<rparr>"

text \<open>A board of four cells in one row, with one mine, after the call \<^verbatim>\<open>reveal(0, 0)\<close>.\<close>

definition row4_opened :: board where
  "row4_opened =
     \<lparr>cols = 4, rows = 1, num_mines = 1,
      cells = [cell_of 0 0 False True False 0, cell_of 1 0 False True False 1,
               cell_of 2 0 True False False 0, cell_of 3 0 False False False 1],
      mines_placed = True, revealed_count = 2, game_over = False, win = False\<rparr>"

text \<open>The same board after \<^verbatim>\<open>reveal(2, 0)\<close>, which hits the mine.\<close>

definition row4_lost :: board where
  "row4_lost =
     \<lparr>cols = 4, rows = 1, num_mines = 1,
      cells = [cell_of 0 0 False True False 0, cell_of 1 0 False True False 1,
               cell_of 2 0 True True False 0, cell_of 3 0 False False False 1],
      mines_placed = True, revealed_count = 2, game_over = True, win = False\<rparr>"



text \<open>The board \<open>row4_opened\<close> after \<^verbatim>\<open>reveal(3, 0)\<close>, which wins, and after a further
  \<^verbatim>\<open>reveal(2, 0)\<close>, which hits the mine.\<close>

definition row4_won :: board where
  "row4_won =
     \<lparr>cols = 4, rows = 1, num_mines = 1,
      cells = [cell_of 0 0 False True False 0, cell_of 1 0 False True False 1,
               cell_of 2 0 True False False 0, cell_of 3 0 False True False 1],
      mines_placed = True, revealed_count = 3, game_over = False, win = True\<rparr>"

definition row4_won_lost :: board where
  "row4_won_lost =
     \<lparr>cols = 4, rows = 1, num_mines = 1,
      cells = [cell_of 0 0 False True False 0, cell_of 1 0 False True False 1,
               cell_of 2 0 True True False 0, cell_of 3 0 False True False 1],
      mines_placed = True, revealed_count = 3, game_over = True, win = True\<rparr>"

text \<open>The board of four cells in one row, with one mine, after \<^verbatim>\<open>place_mines(0, 0)\<close>.\<close>

definition row4_placed :: board where
  "row4_placed =
     \<lparr>cols = 4, rows = 1, num_mines = 1,
      cells = [cell_of 0 0 False False False 0, cell_of 1 0 False False False 1,
               cell_of 2 0 True False False 0, cell_of 3 0 False False False 1],
      mines_placed = True, revealed_count = 0, game_over = False, win = False\<rparr>"

text \<open>A board of three cells in one row without mines, after \<^verbatim>\<open>toggle_flag(1, 0)\<close> and
  \<^verbatim>\<open>reveal(0, 0)\<close>, and the same board after \<^verbatim>\<open>reveal(2, 0)\<close>.\<close>

definition row3_flagged :: board where
  "row3_flagged =
     \<lparr>cols = 3, rows = 1, num_mines = 0,
      cells = [cell_of 0 0 False True False 0, cell_of 1 0 False False True 0,
               cell_of 2 0 False False False 0],
      mines_placed = True, revealed_count = 1, game_over = False, win = False\<rparr>"

definition row3_after :: board where
  "row3_after =
     \<lparr>cols = 3, rows = 1, num_mines = 0,
      cells = [cell_of 0 0 False True False 0, cell_of 1 0 False False True 0,
               cell_of 2 0 False True False 0],
      mines_placed = True, revealed_count = 2, game_over = False, win = False\<rparr>"


definition row3_short_won :: board where
  "row3_short_won =
     \<lparr>cols = 3, rows = 1, num_mines = 2,
      cells = [cell_of 0 0 False True True 0, cell_of 1 0 False True False 0,
               cell_of 2 0 False True True 0],
      mines_placed = True, revealed_count = 1, game_over = False, win = True\<rparr>"

text \<open>A board of five cells in one row without mines, in which only the cell in the middle
  is revealed and no cell is flagged, and the same board after \<^verbatim>\<open>reveal(0, 0)\<close>.\<close>

definition row5_gap :: board where
  "row5_gap =
     \<lparr>cols = 5, rows = 1, num_mines = 0,
      cells = [cell_of 0 0 False False False 0, cell_of 1 0 False False False 0,
               cell_of 2 0 False True False 0, cell_of 3 0 False False False 0,
               cell_of 4 0 False False False 0],
      mines_placed = True, revealed_count = 1, game_over = False, win = False\<rparr>"

definition row5_gap_after :: board where
  "row5_gap_after =
     \<lparr>cols = 5, rows = 1, num_mines = 0,
      cells = [cell_of 0 0 False True False 0, cell_of 1 0 False True False 0,
               cell_of 2 0 False True False 0, cell_of 3 0 False False False 0,
               cell_of 4 0 False False False 0],
      mines_placed = True, revealed_count = 3, game_over = False, win = False\<rparr>"

text \<open>A board of five cells in one row with one mine, after \<^verbatim>\<open>reveal(0, 0)\<close>, and the same
  board after \<^verbatim>\<open>reveal(4, 0)\<close>.\<close>

definition row5_opened :: board where
  "row5_opened =
     \<lparr>cols = 5, rows = 1, num_mines = 1,
      cells = [cell_of 0 0 False True False 0, cell_of 1 0 False True False 1,
               cell_of 2 0 True False False 0, cell_of 3 0 False False False 1,
               cell_of 4 0 False False False 0],
      mines_placed = True, revealed_count = 2, game_over = False, win = False\<rparr>"

definition row5_won :: board where
  "row5_won =
     \<lparr>cols = 5, rows = 1, num_mines = 1,
      cells = [cell_of 0 0 False True False 0, cell_of 1 0 False True False 1,
               cell_of 2 0 True False False 0, cell_of 3 0 False True False 1,
               cell_of 4 0 False True False 0],
      mines_placed = True, revealed_count = 4, game_over = False, win = True\<rparr>"

section \<open>Well-formed boards\<close>

lemma index_bounds:
  assumes "is_inbounds b c r"
  shows "0 \<le> index b c r" and "index b c r < cols b * rows b"
proof -
  from assms have c: "0 \<le> c" "c < cols b" and r: "0 \<le> r" "r < rows b"
    by (auto simp: is_inbounds_def)
  show "0 \<le> index b c r" using c r by (simp add: index_def)
  have "(r + 1) * cols b \<le> rows b * cols b"
    using r c by (intro mult_right_mono) auto
  then show "index b c r < cols b * rows b"
    using c by (simp add: index_def algebra_simps)
qed

lemma index_mod_div:
  assumes "is_inbounds b c r"
  shows "index b c r mod cols b = c" and "index b c r div cols b = r"
  using assms by (auto simp: is_inbounds_def index_def)

lemma index_inj:
  assumes "is_inbounds b c r" "is_inbounds b c' r'" "index b c r = index b c' r'"
  shows "c = c' \<and> r = r'"
  using index_mod_div[OF assms(1)] index_mod_div[OF assms(2)] assms(3) by simp

lemma nat_index_lt:
  assumes "wf_board b" "is_inbounds b c r"
  shows "nat (index b c r) < length (cells b)"
proof -
  from assms(2) have "0 \<le> cols b" "0 \<le> rows b" by (auto simp: is_inbounds_def)
  then have "length (cells b) = nat (cols b * rows b)"
    using assms(1) by (simp add: wf_board_def nat_mult_distrib)
  then show ?thesis using index_bounds[OF assms(2)] by simp
qed

lemma py_index_inb:
  assumes "wf_board b" "is_inbounds b c r"
  shows "py_index (cells b) (index b c r) = Some (nat (index b c r))"
  using nat_index_lt[OF assms] index_bounds(1)[OF assms(2)]
  by (simp add: py_index_def Let_def)

lemma get_cell_inb:
  "wf_board b \<Longrightarrow> is_inbounds b c r \<Longrightarrow> get_cell b c r = Some (cell_at b (c, r))"
  by (simp add: get_cell_def py_index_inb cell_at_def)

lemma pos_of_index:
  assumes "wf_board b" "i < length (cells b)"
  shows "is_inbounds b (int i mod cols b) (int i div cols b)"
    and "index b (int i mod cols b) (int i div cols b) = int i"
proof -
  from assms have lt: "i < nat (cols b) * nat (rows b)" by (simp add: wf_board_def)
  then have pos: "0 < cols b" "0 < rows b" by (auto simp: zero_less_nat_eq intro: ccontr)
  have "i div nat (cols b) < nat (rows b)"
    using lt by (simp add: less_mult_imp_div_less mult.commute)
  then have "int (i div nat (cols b)) < rows b"
    using pos by linarith
  moreover have "int (i div nat (cols b)) = int i div cols b"
    using pos by (simp add: zdiv_int)
  ultimately have "int i div cols b < rows b" by simp
  moreover have "0 \<le> int i div cols b" using pos by (simp add: pos_imp_zdiv_nonneg_iff)
  ultimately show "is_inbounds b (int i mod cols b) (int i div cols b)"
    using pos by (simp add: is_inbounds_def)
  show "index b (int i mod cols b) (int i div cols b) = int i"
    by (simp add: index_def)
qed

lemma length_all_positions: "length (all_positions cs rs) = nat cs * nat rs"
  by (simp add: all_positions_def py_range_def length_concat comp_def sum_list_triv)

lemma nth_rows_upto:
  "i < nat cs * n \<Longrightarrow>
   concat (map (\<lambda>r. map (\<lambda>c. (c, r)) (py_range cs)) (map int [0..<n])) ! i
     = (int i mod cs, int i div cs)"
proof (induction n)
  case 0
  then show ?case by simp
next
  case (Suc n)
  let ?f = "\<lambda>r. map (\<lambda>c. (c, r)) (py_range cs)"
  have pos: "0 < cs" using Suc.prems by (auto intro: ccontr)
  have len: "length (concat (map ?f (map int [0..<n]))) = nat cs * n"
    by (simp add: py_range_def length_concat comp_def sum_list_triv)
  have app: "concat (map ?f (map int [0..<Suc n])) = concat (map ?f (map int [0..<n])) @ ?f (int n)"
    by simp
  show ?case
  proof (cases "i < nat cs * n")
    case True
    then show ?thesis
      unfolding app using Suc.IH len by (simp add: nth_append)
  next
    case False
    define j where "j = i - nat cs * n"
    have j: "j < nat cs" "i = j + nat cs * n" using Suc.prems False by (auto simp: j_def)
    have "int i = int j + cs * int n" using j pos by simp
    moreover have "0 \<le> int j" "int j < cs" using j pos by auto
    ultimately have md: "int i mod cs = int j" "int i div cs = int n"
      using pos by (auto simp: mult.commute)
    have "concat (map ?f (map int [0..<Suc n])) ! i = ?f (int n) ! j"
      unfolding app using False len by (simp add: nth_append j_def)
    also have "\<dots> = (int j, int n)" using j by (simp add: py_range_def)
    finally show ?thesis using md by simp
  qed
qed

lemma nth_all_positions:
  "i < nat cs * nat rs \<Longrightarrow> all_positions cs rs ! i = (int i mod cs, int i div cs)"
  unfolding all_positions_def py_range_def[of rs] by (rule nth_rows_upto)

lemma set_py_range: "set (py_range n) = {x. 0 \<le> x \<and> x < n}"
proof (rule set_eqI)
  fix x
  show "x \<in> set (py_range n) \<longleftrightarrow> x \<in> {x. 0 \<le> x \<and> x < n}"
  proof
    assume "x \<in> set (py_range n)"
    then obtain k where "x = int k" "k < nat n" by (auto simp: py_range_def)
    then show "x \<in> {x. 0 \<le> x \<and> x < n}" by auto
  next
    assume "x \<in> {x. 0 \<le> x \<and> x < n}"
    then have "x = int (nat x)" "nat x < nat n" by auto
    then show "x \<in> set (py_range n)" unfolding py_range_def by (metis atLeast0LessThan imageI lessThan_iff set_map set_upt)
  qed
qed

lemma set_all_positions:
  "set (all_positions cs rs) = {p. 0 \<le> fst p \<and> fst p < cs \<and> 0 \<le> snd p \<and> snd p < rs}"
  by (auto simp: all_positions_def set_py_range)

lemma set_all_positions_inb: "p \<in> set (all_positions (cols b) (rows b)) \<longleftrightarrow> inb b p"
  by (auto simp: set_all_positions inb_def is_inbounds_def)

lemma distinct_all_positions: "distinct (all_positions cs rs)"
proof -
  have "i = j" if "i < nat cs * nat rs" "j < nat cs * nat rs"
    "all_positions cs rs ! i = all_positions cs rs ! j" for i j
  proof -
    from that have "int i mod cs = int j mod cs" "int i div cs = int j div cs"
      by (simp_all add: nth_all_positions)
    then have "int i = int j" by (metis mult_div_mod_eq)
    then show ?thesis by simp
  qed
  then show ?thesis by (auto simp: distinct_conv_nth length_all_positions)
qed

lemma wf_new_board: "wf_board (new_board cs rs m)"
  unfolding wf_board_def
  by (auto simp: new_board_def length_all_positions nth_all_positions new_cell_def)

lemma cells_as_positions:
  assumes "wf_board b"
  shows "cells b = map (cell_at b) (all_positions (cols b) (rows b))"
proof (rule nth_equalityI)
  show "length (cells b) = length (map (cell_at b) (all_positions (cols b) (rows b)))"
    using assms by (simp add: wf_board_def length_all_positions)
next
  fix i assume i: "i < length (cells b)"
  then have i': "i < nat (cols b) * nat (rows b)" using assms by (simp add: wf_board_def)
  show "cells b ! i = map (cell_at b) (all_positions (cols b) (rows b)) ! i"
    using i' pos_of_index(2)[OF assms i]
    by (simp add: length_all_positions nth_all_positions cell_at_def)
qed

section \<open>Cells of a well-formed board\<close>

lemma same_shape_refl [simp]: "same_shape b b"
  by (simp add: same_shape_def)

lemma same_shape_geom:
  assumes "same_shape b b'"
  shows "is_inbounds b' = is_inbounds b" "index b' = index b" "neighbors b' = neighbors b"
    "inb b' = inb b"
  using assms by (auto simp: same_shape_def is_inbounds_def index_def neighbors_def inb_def fun_eq_iff)

lemma same_shape_upd_at [simp]: "same_shape b (upd_at b p f)"
  by (simp add: same_shape_def upd_at_def)

lemma same_shape_mark [simp]: "same_shape b (mark b p)"
  by (simp add: same_shape_def upd_at_def mark_def)

lemmas geom_upd_at [simp] = same_shape_geom[OF same_shape_upd_at]

lemmas geom_mark [simp] = same_shape_geom[OF same_shape_mark]

lemma scalars_upd_at [simp]:
  "cols (upd_at b p f) = cols b" "rows (upd_at b p f) = rows b"
  "num_mines (upd_at b p f) = num_mines b" "mines_placed (upd_at b p f) = mines_placed b"
  "revealed_count (upd_at b p f) = revealed_count b" "game_over (upd_at b p f) = game_over b"
  "win (upd_at b p f) = win b" "length (cells (upd_at b p f)) = length (cells b)"
  by (simp_all add: upd_at_def)

lemma scalars_mark [simp]:
  "cols (mark b p) = cols b" "rows (mark b p) = rows b"
  "num_mines (mark b p) = num_mines b" "mines_placed (mark b p) = mines_placed b"
  "revealed_count (mark b p) = revealed_count b + 1" "game_over (mark b p) = game_over b"
  "win (mark b p) = win b" "length (cells (mark b p)) = length (cells b)"
  by (simp_all add: mark_def)

lemma inb_nat_index_lt: "wf_board b \<Longrightarrow> inb b p \<Longrightarrow> nat (index b (fst p) (snd p)) < length (cells b)"
  by (simp add: inb_def nat_index_lt)

lemma inb_index_inj:
  assumes "inb b p" "inb b q" "nat (index b (fst p) (snd p)) = nat (index b (fst q) (snd q))"
  shows "p = q"
proof -
  have "index b (fst p) (snd p) = index b (fst q) (snd q)"
    using assms index_bounds(1)[of b "fst p" "snd p"] index_bounds(1)[of b "fst q" "snd q"]
    by (simp add: inb_def)
  then show ?thesis
    using index_inj[of b "fst p" "snd p" "fst q" "snd q"] assms by (simp add: inb_def prod_eq_iff)
qed

lemma wf_upd_at [simp]:
  assumes "wf_board b"
  shows "wf_board (upd_at b p f)"
proof -
  let ?k = "nat (index b (fst p) (snd p))"
  let ?cs = "(cells b)[?k := (cell_at b p)\<lparr>state := f (st b p)\<rparr>]"
  have "col (?cs ! i) = col (cells b ! i) \<and> row (?cs ! i) = row (cells b ! i)"
    if "i < length (cells b)" for i
    using that by (cases "i = ?k") (simp_all add: cell_at_def)
  then show ?thesis
    using assms by (simp add: wf_board_def upd_at_def)
qed

lemma wf_mark [simp]: "wf_board b \<Longrightarrow> wf_board (mark b p)"
  using wf_upd_at[of b p] by (simp add: mark_def wf_board_def)

lemma cell_at_upd_at:
  assumes "wf_board b" "inb b p" "inb b q"
  shows "cell_at (upd_at b p f) q = (if q = p then (cell_at b p)\<lparr>state := f (st b p)\<rparr> else cell_at b q)"
proof (cases "q = p")
  case True
  then show ?thesis
    using inb_nat_index_lt[OF assms(1,2)] by (simp add: cell_at_def upd_at_def index_def)
next
  case False
  then have "nat (index b (fst p) (snd p)) \<noteq> nat (index b (fst q) (snd q))"
    using inb_index_inj[OF assms(2,3)] by auto
  then show ?thesis using False by (simp add: cell_at_def upd_at_def index_def)
qed

lemma st_upd_at:
  "wf_board b \<Longrightarrow> inb b p \<Longrightarrow> inb b q \<Longrightarrow> st (upd_at b p f) q = (if q = p then f (st b p) else st b q)"
  by (simp add: st_def cell_at_upd_at)

lemma st_mark:
  "wf_board b \<Longrightarrow> inb b p \<Longrightarrow> inb b q \<Longrightarrow>
   st (mark b p) q = (if q = p then (st b p)\<lparr>is_revealed := True\<rparr> else st b q)"
  using st_upd_at[of b p q] by (simp add: mark_def st_def cell_at_def index_def)

lemma get_cell_inb': "wf_board b \<Longrightarrow> inb b p \<Longrightarrow> get_cell b (fst p) (snd p) = Some (cell_at b p)"
  using get_cell_inb[of b "fst p" "snd p"] by (simp add: inb_def)

lemma upd_state_inb: "wf_board b \<Longrightarrow> inb b p \<Longrightarrow> upd_state b (fst p) (snd p) f = Some (upd_at b p f)"
  by (simp add: upd_state_def py_index_inb inb_def upd_at_def cell_at_def st_def)

lemma mark_revealed_inb: "wf_board b \<Longrightarrow> inb b p \<Longrightarrow> mark_revealed b (fst p) (snd p) = Some (mark b p)"
  by (simp add: mark_revealed_def upd_state_inb mark_def)

lemma neighbors_inb: "q \<in> set (neighbors b c r) \<Longrightarrow> inb b q"
  by (auto simp: neighbors_def inb_def)

lemma not_self_neighbor: "(c, r) \<notin> set (neighbors b c r)"
  by (auto simp: neighbors_def deltas_def)

lemma length_neighbors: "length (neighbors b c r) \<le> 8"
proof -
  have "length (neighbors b c r) \<le> length deltas"
    unfolding neighbors_def by (rule order_trans[OF length_filter_le]) simp
  then show ?thesis by (simp add: deltas_def)
qed

lemma cells_forall:
  assumes "wf_board b"
  shows "(\<forall>x\<in>set (cells b). P x) \<longleftrightarrow> (\<forall>p. inb b p \<longrightarrow> P (cell_at b p))"
proof -
  have "set (cells b) = cell_at b ` {p. inb b p}"
    by (subst cells_as_positions[OF assms]) (auto simp: set_all_positions_inb)
  then show ?thesis by auto
qed

lemma length_filter_update:
  assumes "k < length xs"
  shows "int (length (filter P (xs[k := v]))) =
         int (length (filter P xs)) - (if P (xs ! k) then 1 else 0) + (if P v then 1 else 0)"
proof -
  have parts: "xs = take k xs @ xs ! k # drop (Suc k) xs"
    using assms by (simp add: id_take_nth_drop)
  have "length (filter P xs) = length (filter P (take k xs)) + (if P (xs ! k) then 1 else 0)
          + length (filter P (drop (Suc k) xs))"
    by (subst parts) simp
  moreover have "length (filter P (xs[k := v])) = length (filter P (take k xs)) + (if P v then 1 else 0)
          + length (filter P (drop (Suc k) xs))"
    using assms by (simp add: upd_conv_take_nth_drop)
  ultimately show ?thesis by simp
qed

lemma count_cells_upd_at:
  assumes "wf_board b" "inb b p"
  shows "count_cells P (upd_at b p f) =
         count_cells P b - (if P (st b p) then 1 else 0) + (if P (f (st b p)) then 1 else 0)"
  unfolding count_cells_def upd_at_def
  using length_filter_update[OF inb_nat_index_lt[OF assms], of "\<lambda>x. P (state x)"]
  by (simp add: st_def cell_at_def)

lemma count_cells_mark:
  assumes "wf_board b" "inb b p"
  shows "count_cells P (mark b p) =
         count_cells P b - (if P (st b p) then 1 else 0) + (if P ((st b p)\<lparr>is_revealed := True\<rparr>) then 1 else 0)"
  using count_cells_upd_at[OF assms, of P "\<lambda>s. s\<lparr>is_revealed := True\<rparr>"]
  by (simp add: mark_def count_cells_def)

section \<open>The flood fill on a well-formed board\<close>

lemma push_neighbors_wf:
  "wf_board b \<Longrightarrow> \<forall>q\<in>set ns. inb b q \<Longrightarrow>
   push_neighbors b ns stack = Some (rev (filter (hidden b) ns) @ stack)"
  by (induction ns arbitrary: stack) (auto simp: get_cell_inb' hidden_def st_def)

lemma hidden_mark:
  "wf_board b \<Longrightarrow> inb b p \<Longrightarrow> inb b q \<Longrightarrow> hidden (mark b p) q \<longleftrightarrow> hidden b q \<and> q \<noteq> p"
  by (auto simp: hidden_def st_mark)

lemma filter_hidden_mark:
  assumes "wf_board b" "inb b p"
  shows "filter (hidden (mark b p)) (neighbors b (fst p) (snd p)) =
         filter (hidden b) (neighbors b (fst p) (snd p))"
proof (rule filter_cong[OF refl])
  fix q assume q: "q \<in> set (neighbors b (fst p) (snd p))"
  then have "inb b q" by (rule neighbors_inb)
  moreover have "q \<noteq> p" using q not_self_neighbor[of "fst p" "snd p" b] by auto
  ultimately show "hidden (mark b p) q = hidden b q"
    using assms by (simp add: hidden_mark)
qed

lemma push_neighbors_mark:
  assumes "wf_board b" "inb b p"
  shows "push_neighbors (mark b p) (neighbors (mark b p) (fst p) (snd p)) stack =
         Some (rev (filter (hidden b) (neighbors b (fst p) (snd p))) @ stack)"
proof -
  have "\<forall>q\<in>set (neighbors b (fst p) (snd p)). inb (mark b p) q"
    by (simp add: neighbors_inb)
  then show ?thesis
    using push_neighbors_wf[of "mark b p" "neighbors b (fst p) (snd p)" stack] assms
    by (simp add: filter_hidden_mark)
qed

lemma flood_unfold:
  assumes "wf_board b" "inb b p"
  shows "flood b (p # stack) =
         (if hidden b p then flood (mark b p) (pushes b p @ stack) else flood b stack)"
  using assms push_neighbors_mark[OF assms, of stack]
  by (subst flood.simps(2))
     (auto simp: get_cell_inb' mark_revealed_inb pushes_def hidden_def st_def)

lemma pushes_inb: "q \<in> set (pushes b p) \<Longrightarrow> inb b q"
  by (auto simp: pushes_def neighbors_inb split: if_splits)

lemma flood_wf_induct [consumes 2, case_names empty skip reveal]:
  assumes "wf_board b" "\<forall>q\<in>set stack. inb b q"
    and "\<And>b. wf_board b \<Longrightarrow> P b []"
    and "\<And>b p stack. wf_board b \<Longrightarrow> inb b p \<Longrightarrow> \<forall>q\<in>set stack. inb b q \<Longrightarrow> \<not> hidden b p \<Longrightarrow>
           P b stack \<Longrightarrow> P b (p # stack)"
    and "\<And>b p stack. wf_board b \<Longrightarrow> inb b p \<Longrightarrow> \<forall>q\<in>set stack. inb b q \<Longrightarrow> hidden b p \<Longrightarrow>
           P (mark b p) (pushes b p @ stack) \<Longrightarrow> P b (p # stack)"
  shows "P b stack"
  using assms(1,2)
proof (induction b stack rule: flood.induct)
  case (1 b)
  from "1.prems"(1) show ?case by (rule assms(3))
next
  case (2 b p stack)
  have wf: "wf_board b" and p: "inb b p" and rest: "\<forall>q\<in>set stack. inb b q"
    using "2.prems" by auto
  have g: "get_cell b (fst p) (snd p) = Some (cell_at b p)" using wf p by (rule get_cell_inb')
  show ?case
  proof (cases "hidden b p")
    case False
    then have "is_revealed (state (cell_at b p)) \<or> is_flagged (state (cell_at b p))"
      by (auto simp: hidden_def st_def)
    from "2.IH"(1)[OF g this wf rest] show ?thesis
      by (rule assms(4)[OF wf p rest False])
  next
    case True
    then have nh: "\<not> (is_revealed (state (cell_at b p)) \<or> is_flagged (state (cell_at b p)))"
      by (auto simp: hidden_def st_def)
    have m: "mark_revealed b (fst p) (snd p) = Some (mark b p)" using wf p by (rule mark_revealed_inb)
    have wf': "wf_board (mark b p)" using wf by simp
    have all': "\<forall>q\<in>set (pushes b p @ stack). inb (mark b p) q"
      using rest by (auto dest: pushes_inb)
    have "P (mark b p) (pushes b p @ stack)"
    proof (cases "adjacent (state (cell_at b p)) = 0")
      case z: True
      have pn: "push_neighbors (mark b p) (neighbors (mark b p) (fst p) (snd p)) stack
                  = Some (pushes b p @ stack)"
        using push_neighbors_mark[OF wf p, of stack] z by (simp add: pushes_def st_def)
      from "2.IH"(2)[OF g nh m z pn wf' all'] show ?thesis .
    next
      case nz: False
      then have "pushes b p = []" by (simp add: pushes_def st_def)
      with "2.IH"(3)[OF g nh m nz wf'] rest show ?thesis by simp
    qed
    then show ?thesis by (rule assms(5)[OF wf p rest True])
  qed
qed

lemma rev_ext_refl: "wf_board b \<Longrightarrow> rev_ext b b"
  by (simp add: rev_ext_def)

lemma rev_ext_trans:
  assumes "rev_ext a b" "rev_ext b c"
  shows "rev_ext a c"
proof -
  have g: "inb b = inb a" using assms(1) by (simp add: rev_ext_def same_shape_geom)
  show ?thesis
    using assms g by (auto simp: rev_ext_def same_shape_def)
qed

lemma rev_ext_mark: "wf_board b \<Longrightarrow> inb b p \<Longrightarrow> rev_ext b (mark b p)"
  by (auto simp: rev_ext_def st_mark)

lemma flood_rev_ext:
  assumes "wf_board b" "\<forall>q\<in>set stack. inb b q"
  shows "\<exists>b'. flood b stack = Some b' \<and> rev_ext b b'"
  using assms
proof (induction rule: flood_wf_induct)
  case (empty b)
  then show ?case by (simp add: rev_ext_refl)
next
  case (skip b p stack)
  then show ?case by (simp add: flood_unfold)
next
  case (reveal b p stack)
  then show ?case
    by (auto simp: flood_unfold intro: rev_ext_trans[OF rev_ext_mark])
qed

lemma flood_count:
  assumes "wf_board b" "\<forall>q\<in>set stack. inb b q" "flood b stack = Some b'"
  shows "revealed_count b' - count_cells is_revealed b' = revealed_count b - count_cells is_revealed b"
  using assms
proof (induction arbitrary: b' rule: flood_wf_induct)
  case (empty b)
  then show ?case by simp
next
  case (skip b p stack)
  then show ?case by (simp add: flood_unfold)
next
  case (reveal b p stack)
  from reveal.prems reveal.hyps have "flood (mark b p) (pushes b p @ stack) = Some b'"
    by (simp add: flood_unfold)
  from reveal.IH[OF this] show ?case
    using reveal.hyps by (simp add: count_cells_mark hidden_def)
qed

section \<open>What the flood fill reveals\<close>

lemma flood_set_empty [simp]: "flood_set b {} = {}"
proof -
  have "False" if "q \<in> flood_set b {}" for q
    using that by (induction rule: flood_set.induct) auto
  then show ?thesis by auto
qed

lemma flood_set_hidden: "q \<in> flood_set b S \<Longrightarrow> hidden b q"
  by (induction rule: flood_set.induct) auto

lemma flood_set_inb:
  assumes "\<forall>q\<in>S. inb b q" "q \<in> flood_set b S"
  shows "inb b q"
  using assms(2) by (induction rule: flood_set.induct) (use assms(1) in \<open>auto dest: neighbors_inb\<close>)

lemma flood_set_skip:
  assumes "\<not> hidden b p"
  shows "flood_set b (insert p S) = flood_set b S"
proof -
  have "q \<in> flood_set b S" if "q \<in> flood_set b (insert p S)" for q
    using that
  proof (induction rule: flood_set.induct)
    case (start q)
    then show ?case using assms by (auto intro: flood_set.start)
  next
    case (spread x q)
    then show ?case by (auto intro: flood_set.spread)
  qed
  moreover have "q \<in> flood_set b (insert p S)" if "q \<in> flood_set b S" for q
    using that
  proof (induction rule: flood_set.induct)
    case (start q)
    then show ?case by (auto intro: flood_set.start)
  next
    case (spread x q)
    then show ?case by (auto intro: flood_set.spread)
  qed
  ultimately show ?thesis by auto
qed

lemma flood_set_reveal:
  assumes wf: "wf_board b" and p: "inb b p" and S: "\<forall>q\<in>S. inb b q" and h: "hidden b p"
  shows "flood_set b (insert p S) = insert p (flood_set (mark b p) (set (pushes b p) \<union> S))"
proof -
  let ?T = "set (pushes b p) \<union> S"
  have T: "\<forall>q\<in>?T. inb (mark b p) q" using S by (auto dest: pushes_inb)
  have left: "q \<in> flood_set b (insert p S)" if "q \<in> flood_set (mark b p) ?T" for q
    using that
  proof (induction rule: flood_set.induct)
    case (start q)
    have iq: "inb b q" using start.hyps(1) T by auto
    then have hq: "hidden b q" "q \<noteq> p" using start.hyps(2) wf p by (auto simp: hidden_mark)
    show ?case
    proof (cases "q \<in> S")
      case True
      then show ?thesis using hq by (auto intro: flood_set.start)
    next
      case False
      then have "q \<in> set (pushes b p)" using start.hyps(1) by auto
      then have "adjacent (st b p) = 0" "q \<in> set (neighbors b (fst p) (snd p))"
        by (auto simp: pushes_def split: if_splits)
      moreover have "p \<in> flood_set b (insert p S)" using h by (auto intro: flood_set.start)
      ultimately show ?thesis using hq by (auto intro: flood_set.spread)
    qed
  next
    case (spread x q)
    have ix: "inb b x" using flood_set_inb[OF T spread.hyps(1)] by simp
    have iq: "inb b q" using spread.hyps(3) by (auto dest: neighbors_inb)
    have "adjacent (st b x) = 0" using spread.hyps(2) wf p ix by (auto simp: st_mark split: if_splits)
    moreover have "hidden b q" using spread.hyps(4) wf p iq by (simp add: hidden_mark)
    moreover have "q \<in> set (neighbors b (fst x) (snd x))" using spread.hyps(3) by simp
    ultimately show ?case using spread.IH by (auto intro: flood_set.spread)
  qed
  have right: "q = p \<or> q \<in> flood_set (mark b p) ?T" if "q \<in> flood_set b (insert p S)" for q
    using that
  proof (induction rule: flood_set.induct)
    case (start q)
    show ?case
    proof (cases "q = p")
      case False
      then have "q \<in> ?T" "inb b q" using start.hyps S by auto
      moreover from this have "hidden (mark b p) q" using start.hyps False wf p by (simp add: hidden_mark)
      ultimately show ?thesis by (auto intro: flood_set.start)
    qed simp
  next
    case (spread x q)
    have iq: "inb b q" using spread.hyps(3) by (auto dest: neighbors_inb)
    show ?case
    proof (cases "q = p")
      case False
      then have hq: "hidden (mark b p) q" using spread.hyps(4) wf p iq by (simp add: hidden_mark)
      show ?thesis
      proof (cases "x = p")
        case True
        then have "q \<in> set (pushes b p)" using spread.hyps by (simp add: pushes_def)
        then show ?thesis using hq by (auto intro: flood_set.start)
      next
        case xp: False
        then have x: "x \<in> flood_set (mark b p) ?T" using spread.IH by simp
        have ix: "inb b x" using flood_set_inb[OF T x] by simp
        have "adjacent (st (mark b p) x) = 0" using spread.hyps(2) wf p ix xp by (simp add: st_mark)
        moreover have "q \<in> set (neighbors (mark b p) (fst x) (snd x))" using spread.hyps(3) by simp
        ultimately show ?thesis using x hq by (auto intro: flood_set.spread)
      qed
    qed simp
  qed
  have "p \<in> flood_set b (insert p S)" using h by (auto intro: flood_set.start)
  then show ?thesis using left right by auto
qed

lemma flood_char:
  assumes "wf_board b" "\<forall>q\<in>set stack. inb b q" "flood b stack = Some b'" "inb b q"
  shows "is_revealed (st b' q) \<longleftrightarrow> is_revealed (st b q) \<or> q \<in> flood_set b (set stack)"
  using assms
proof (induction arbitrary: b' rule: flood_wf_induct)
  case (empty b)
  then show ?case by simp
next
  case (skip b p stack)
  then show ?case by (simp add: flood_unfold flood_set_skip)
next
  case (reveal b p stack)
  have fl: "flood (mark b p) (pushes b p @ stack) = Some b'"
    using reveal.prems reveal.hyps by (simp add: flood_unfold)
  have iq: "inb (mark b p) q" using reveal.prems by simp
  have "is_revealed (st b' q) \<longleftrightarrow>
        is_revealed (st (mark b p) q) \<or> q \<in> flood_set (mark b p) (set (pushes b p @ stack))"
    by (rule reveal.IH[OF fl iq])
  moreover have "is_revealed (st (mark b p) q) \<longleftrightarrow> q = p \<or> is_revealed (st b q)"
    using reveal.hyps reveal.prems by (simp add: st_mark)
  moreover have "flood_set b (set (p # stack)) = insert p (flood_set (mark b p) (set (pushes b p @ stack)))"
    using flood_set_reveal[of b p "set stack"] reveal.hyps by simp
  ultimately show ?case by auto
qed

lemma adj_ok_zero:
  assumes "adj_ok b" "inb b p" "\<not> is_mine (st b p)" "adjacent (st b p) = 0"
    "q \<in> set (neighbors b (fst p) (snd p))"
  shows "\<not> is_mine (st b q)"
proof -
  have "adjacent (st b p) = int (length (filter (\<lambda>q. is_mine (st b q)) (neighbors b (fst p) (snd p))))"
    using assms(1-3) unfolding adj_ok_def mine_neighbors_def by blast
  then have "filter (\<lambda>q. is_mine (st b q)) (neighbors b (fst p) (snd p)) = []"
    using assms(4) by simp
  then show ?thesis using assms(5) by (simp add: filter_empty_conv)
qed

lemma flood_set_safe:
  assumes "adj_ok b" "\<forall>q\<in>S. inb b q \<and> \<not> is_mine (st b q)" "q \<in> flood_set b S"
  shows "\<not> is_mine (st b q)"
  using assms(3)
proof (induction rule: flood_set.induct)
  case (start q)
  then show ?case using assms(2) by auto
next
  case (spread x q)
  have "inb b x" using flood_set_inb[OF _ spread.hyps(1)] assms(2) by auto
  then show ?case using adj_ok_zero[OF assms(1) _ spread.IH spread.hyps(2,3)] by simp
qed

section \<open>Mine placement on a well-formed board\<close>

lemma same_scalars_upd_at: "wf_board b \<Longrightarrow> same_scalars b (upd_at b p f)"
  by (simp add: same_scalars_def)

lemma same_scalars_refl: "wf_board b \<Longrightarrow> same_scalars b b"
  by (simp add: same_scalars_def)

lemma same_scalars_trans: "same_scalars a b \<Longrightarrow> same_scalars b c \<Longrightarrow> same_scalars a c"
  by (auto simp: same_scalars_def same_shape_def)

lemma same_scalars_inb: "same_scalars b b' \<Longrightarrow> inb b' = inb b"
  by (simp add: same_scalars_def same_shape_geom)

lemma set_mines_wf:
  assumes "wf_board b" "\<forall>p\<in>set ps. inb b p"
  shows "\<exists>b'. set_mines b ps = Some b' \<and> same_scalars b b' \<and>
           (\<forall>q. inb b q \<longrightarrow> st b' q = (st b q)\<lparr>is_mine := is_mine (st b q) \<or> q \<in> set ps\<rparr>)"
  using assms
proof (induction ps arbitrary: b)
  case Nil
  then show ?case by (simp add: same_scalars_refl)
next
  case (Cons p ps)
  let ?b1 = "upd_at b p (\<lambda>s. s\<lparr>is_mine := True\<rparr>)"
  have p: "inb b p" and wf: "wf_board b" using Cons.prems by auto
  have "wf_board ?b1" "\<forall>q\<in>set ps. inb ?b1 q" using Cons.prems by auto
  from Cons.IH[OF this] obtain b' where b': "set_mines ?b1 ps = Some b'" "same_scalars ?b1 b'"
    "\<forall>q. inb ?b1 q \<longrightarrow> st b' q = (st ?b1 q)\<lparr>is_mine := is_mine (st ?b1 q) \<or> q \<in> set ps\<rparr>"
    by blast
  have "set_mines b (p # ps) = Some b'"
    using b'(1) wf p by (simp add: upd_state_inb)
  moreover have "same_scalars b b'"
    using same_scalars_trans[OF same_scalars_upd_at[OF wf] b'(2)] .
  moreover have "st b' q = (st b q)\<lparr>is_mine := is_mine (st b q) \<or> q \<in> set (p # ps)\<rparr>" if "inb b q" for q
  proof -
    have "inb ?b1 q" using that by simp
    from b'(3)[rule_format, OF this] show ?thesis
      using that wf p by (auto simp: st_upd_at)
  qed
  ultimately show ?case by blast
qed

lemma count_mines_wf:
  "wf_board b \<Longrightarrow> \<forall>q\<in>set ns. inb b q \<Longrightarrow>
   count_mines b ns k = Some (k + int (length (filter (\<lambda>q. is_mine (st b q)) ns)))"
  by (induction ns arbitrary: k) (auto simp: get_cell_inb' st_def)

lemma adjacent_step_wf:
  assumes "wf_board b" "inb b p"
  shows "adjacent_step b p =
         Some (if is_mine (st b p) then b else upd_at b p (\<lambda>s. s\<lparr>adjacent := mine_neighbors b p\<rparr>))"
proof -
  have "count_mines b (neighbors b (fst p) (snd p)) 0 = Some (mine_neighbors b p)"
    using count_mines_wf[of b "neighbors b (fst p) (snd p)" 0] assms(1)
    by (simp add: neighbors_inb mine_neighbors_def)
  then show ?thesis
    using assms by (simp add: adjacent_step_def get_cell_inb' upd_state_inb st_def)
qed

lemma mine_neighbors_cong:
  assumes "same_shape b b'" "\<forall>q. inb b q \<longrightarrow> is_mine (st b' q) = is_mine (st b q)"
  shows "mine_neighbors b' p = mine_neighbors b p"
proof -
  have "filter (\<lambda>q. is_mine (st b' q)) (neighbors b (fst p) (snd p)) =
        filter (\<lambda>q. is_mine (st b q)) (neighbors b (fst p) (snd p))"
    using assms(2) by (intro filter_cong) (auto dest: neighbors_inb)
  then show ?thesis using assms(1) by (simp add: mine_neighbors_def same_shape_geom)
qed

lemma compute_adjacent_wf:
  assumes "wf_board b" "\<forall>p\<in>set ps. inb b p"
  shows "\<exists>b'. compute_adjacent b ps = Some b' \<and> same_scalars b b' \<and>
           (\<forall>q. inb b q \<longrightarrow>
              st b' q = (if q \<in> set ps \<and> \<not> is_mine (st b q)
                         then (st b q)\<lparr>adjacent := mine_neighbors b q\<rparr> else st b q))"
  using assms
proof (induction ps arbitrary: b)
  case Nil
  then show ?case by (simp add: same_scalars_refl)
next
  case (Cons p ps)
  define b1 where "b1 = (if is_mine (st b p) then b else upd_at b p (\<lambda>s. s\<lparr>adjacent := mine_neighbors b p\<rparr>))"
  have p: "inb b p" and wf: "wf_board b" using Cons.prems by auto
  have step: "adjacent_step b p = Some b1" using adjacent_step_wf[OF wf p] by (simp add: b1_def)
  have wf1: "wf_board b1" and sc1: "same_scalars b b1" and sh1: "same_shape b b1"
    using wf by (auto simp: b1_def same_scalars_def)
  have st1: "st b1 q = (if q = p \<and> \<not> is_mine (st b p) then (st b p)\<lparr>adjacent := mine_neighbors b p\<rparr> else st b q)"
    if "inb b q" for q
    using that wf p by (auto simp: b1_def st_upd_at)
  have mn: "mine_neighbors b1 q = mine_neighbors b q" for q
    by (rule mine_neighbors_cong[OF sh1]) (auto simp: st1)
  have "\<forall>q\<in>set ps. inb b1 q" using Cons.prems sh1 by (simp add: same_shape_geom)
  from Cons.IH[OF wf1 this] obtain b' where b': "compute_adjacent b1 ps = Some b'" "same_scalars b1 b'"
    "\<forall>q. inb b1 q \<longrightarrow> st b' q = (if q \<in> set ps \<and> \<not> is_mine (st b1 q)
                         then (st b1 q)\<lparr>adjacent := mine_neighbors b1 q\<rparr> else st b1 q)"
    by blast
  have "compute_adjacent b (p # ps) = Some b'" using step b'(1) by simp
  moreover have "same_scalars b b'" using same_scalars_trans[OF sc1 b'(2)] .
  moreover have "st b' q = (if q \<in> set (p # ps) \<and> \<not> is_mine (st b q)
                         then (st b q)\<lparr>adjacent := mine_neighbors b q\<rparr> else st b q)" if "inb b q" for q
  proof -
    have "inb b1 q" using that sh1 by (simp add: same_shape_geom)
    from b'(3)[rule_format, OF this] have "st b' q = (if q \<in> set ps \<and> \<not> is_mine (st b1 q)
                         then (st b1 q)\<lparr>adjacent := mine_neighbors b q\<rparr> else st b1 q)"
      by (simp add: mn)
    then show ?thesis using st1[OF that] by auto
  qed
  ultimately show ?case by blast
qed

lemma is_shuffle_facts:
  assumes "is_shuffle shuf"
  shows "set (shuf xs) = set xs" "length (shuf xs) = length xs" "distinct (shuf xs) = distinct xs"
  using assms mset_eq_setD[of "shuf xs" xs] mset_eq_length[of "shuf xs" xs]
    mset_eq_imp_distinct_iff[of "shuf xs" xs]
  by (auto simp: is_shuffle_def)

lemma set_py_take: "set (py_take n xs) \<subseteq> set xs"
  by (auto simp: py_take_def dest: in_set_takeD)

lemma pool_inb: "p \<in> set (pool b c r) \<Longrightarrow> inb b p"
  by (auto simp: pool_def set_all_positions_inb)

lemma drawn_subset: "is_shuffle shuf \<Longrightarrow> drawn shuf b c r \<subseteq> set (pool b c r)"
  using set_py_take[of "num_mines b" "shuf (pool b c r)"]
  by (simp add: drawn_def is_shuffle_facts)

lemma drawn_safe:
  assumes "is_shuffle shuf" "p \<in> drawn shuf b c r"
  shows "inb b p" "p \<noteq> (c, r)" "p \<notin> set (neighbors b c r)"
  using drawn_subset[OF assms(1), of b c r] assms(2)
  by (auto simp: pool_def set_all_positions_inb)

text \<open>The board that \<^verbatim>\<open>place_mines\<close> returns.\<close>

lemma place_mines_wf:
  assumes wf: "wf_board b" and sh: "is_shuffle shuf"
  shows "\<exists>b'. place_mines shuf b c r = Some b' \<and> wf_board b' \<and> same_shape b b' \<and>
           num_mines b' = num_mines b \<and> mines_placed b' \<and> revealed_count b' = revealed_count b \<and>
           game_over b' = game_over b \<and> win b' = win b \<and>
           (\<forall>q. inb b q \<longrightarrow>
              is_mine (st b' q) = (is_mine (st b q) \<or> q \<in> drawn shuf b c r) \<and>
              is_revealed (st b' q) = is_revealed (st b q) \<and>
              is_flagged (st b' q) = is_flagged (st b q) \<and>
              adjacent (st b' q) = (if is_mine (st b' q) then adjacent (st b q) else mine_neighbors b' q))"
proof -
  let ?M = "remdups (py_take (num_mines b) (shuf (pool b c r)))"
  have M: "set ?M = drawn shuf b c r" by (simp add: drawn_def)
  have "\<forall>p\<in>set ?M. inb b p" using drawn_safe(1)[OF sh] M by auto
  from set_mines_wf[OF wf this] obtain b1 where b1: "set_mines b ?M = Some b1" "same_scalars b b1"
    "\<forall>q. inb b q \<longrightarrow> st b1 q = (st b q)\<lparr>is_mine := is_mine (st b q) \<or> q \<in> set ?M\<rparr>"
    by blast
  have wf1: "wf_board b1" and sh1: "same_shape b b1" using b1(2) by (auto simp: same_scalars_def)
  have "\<forall>p\<in>set (all_positions (cols b1) (rows b1)). inb b1 p"
    by (simp add: set_all_positions_inb)
  from compute_adjacent_wf[OF wf1 this] obtain b2 where
    b2: "compute_adjacent b1 (all_positions (cols b1) (rows b1)) = Some b2" "same_scalars b1 b2"
    "\<forall>q. inb b1 q \<longrightarrow> st b2 q = (if \<not> is_mine (st b1 q)
                         then (st b1 q)\<lparr>adjacent := mine_neighbors b1 q\<rparr> else st b1 q)"
    by (auto simp: set_all_positions_inb)
  have sh2: "same_shape b1 b2" and wf2: "wf_board b2" using b2(2) by (auto simp: same_scalars_def)
  let ?b' = "b2\<lparr>mines_placed := True\<rparr>"
  have res: "place_mines shuf b c r = Some ?b'"
    using b1(1) b2(1) by (simp add: place_mines_def pool_def Let_def)
  have sc: "same_scalars b b2" using same_scalars_trans[OF b1(2) b2(2)] .
  have g1: "inb b1 = inb b" using sh1 by (simp add: same_shape_geom)
  have st': "st ?b' = st b2" by (auto simp: st_def cell_at_def index_def fun_eq_iff)
  have mn: "mine_neighbors ?b' q = mine_neighbors b1 q" for q
  proof -
    have "mine_neighbors ?b' q = mine_neighbors b2 q"
      by (simp add: mine_neighbors_def st' neighbors_def is_inbounds_def)
    also have "\<dots> = mine_neighbors b1 q"
    proof (rule mine_neighbors_cong[OF sh2], intro allI impI)
      fix x assume "inb b1 x"
      from b2(3)[rule_format, OF this] show "is_mine (st b2 x) = is_mine (st b1 x)" by simp
    qed
    finally show ?thesis .
  qed
  have cellwise: "is_mine (st ?b' q) = (is_mine (st b q) \<or> q \<in> drawn shuf b c r) \<and>
              is_revealed (st ?b' q) = is_revealed (st b q) \<and>
              is_flagged (st ?b' q) = is_flagged (st b q) \<and>
              adjacent (st ?b' q) = (if is_mine (st ?b' q) then adjacent (st b q) else mine_neighbors ?b' q)"
    if "inb b q" for q
  proof -
    have 1: "st b1 q = (st b q)\<lparr>is_mine := is_mine (st b q) \<or> q \<in> drawn shuf b c r\<rparr>"
      using b1(3)[rule_format, OF that] M by simp
    have "inb b1 q" using that g1 by simp
    from b2(3)[rule_format, OF this]
    have 2: "st b2 q = (if \<not> is_mine (st b1 q) then (st b1 q)\<lparr>adjacent := mine_neighbors b1 q\<rparr> else st b1 q)" .
    show ?thesis unfolding st' mn using 1 2 by auto
  qed
  have "wf_board ?b'" using wf2 by (simp add: wf_board_def)
  moreover have "same_shape b ?b'" using sc by (simp add: same_scalars_def same_shape_def)
  ultimately show ?thesis
    using res sc cellwise by (auto simp: same_scalars_def)
qed

section \<open>The sweeps over all cells\<close>

lemma reveal_all_mines_eq: "reveal_all_mines b = map_state sweep_mines b"
proof -
  have eq: "(\<lambda>x. if is_mine (state x) then x\<lparr>state := (state x)\<lparr>is_revealed := True\<rparr>\<rparr> else x)
        = (\<lambda>x. x\<lparr>state := sweep_mines (state x)\<rparr>)"
    by (auto simp: sweep_mines_def fun_eq_iff)
  show ?thesis by (simp only: reveal_all_mines_def map_state_def eq)
qed

lemma check_win_eq: "check_win b = (if win_now b then (map_state sweep_safe b)\<lparr>win := True\<rparr> else b)"
proof -
  have eq: "(\<lambda>x. if \<not> is_revealed (state x) \<and> \<not> is_mine (state x)
             then x\<lparr>state := (state x)\<lparr>is_revealed := True\<rparr>\<rparr> else x)
        = (\<lambda>x. x\<lparr>state := sweep_safe (state x)\<rparr>)"
    by (auto simp: sweep_safe_def fun_eq_iff)
  show ?thesis
    unfolding check_win_def map_state_def win_now_def Let_def eq by simp
qed

lemma scalars_map_state [simp]:
  "cols (map_state g b) = cols b" "rows (map_state g b) = rows b"
  "num_mines (map_state g b) = num_mines b" "mines_placed (map_state g b) = mines_placed b"
  "revealed_count (map_state g b) = revealed_count b" "game_over (map_state g b) = game_over b"
  "win (map_state g b) = win b" "length (cells (map_state g b)) = length (cells b)"
  by (simp_all add: map_state_def)

lemma same_shape_map_state [simp]: "same_shape b (map_state g b)"
  by (simp add: same_shape_def)

lemmas geom_map_state [simp] = same_shape_geom[OF same_shape_map_state]

lemma wf_map_state [simp]: "wf_board b \<Longrightarrow> wf_board (map_state g b)"
  by (simp add: wf_board_def map_state_def)

lemma st_map_state: "wf_board b \<Longrightarrow> inb b p \<Longrightarrow> st (map_state g b) p = g (st b p)"
  using inb_nat_index_lt[of b p] by (simp add: st_def cell_at_def map_state_def index_def)

lemma count_cells_map_state: "count_cells P (map_state g b) = count_cells (\<lambda>s. P (g s)) b"
  by (simp add: count_cells_def map_state_def filter_map comp_def)

text \<open>Updates of the scalar fields leave the cells alone.\<close>

lemma st_scalar_update [simp]:
  "st (b\<lparr>game_over := x\<rparr>) = st b" "st (b\<lparr>win := y\<rparr>) = st b"
  "st (b\<lparr>mines_placed := z\<rparr>) = st b" "st (b\<lparr>revealed_count := n\<rparr>) = st b"
  by (simp_all add: st_def cell_at_def index_def fun_eq_iff)

lemma inb_scalar_update [simp]:
  "inb (b\<lparr>game_over := x\<rparr>) = inb b" "inb (b\<lparr>win := y\<rparr>) = inb b"
  "inb (b\<lparr>mines_placed := z\<rparr>) = inb b" "inb (b\<lparr>revealed_count := n\<rparr>) = inb b"
  by (simp_all add: inb_def is_inbounds_def fun_eq_iff)

lemma wf_scalar_update [simp]:
  "wf_board (b\<lparr>game_over := x\<rparr>) = wf_board b" "wf_board (b\<lparr>win := y\<rparr>) = wf_board b"
  "wf_board (b\<lparr>mines_placed := z\<rparr>) = wf_board b" "wf_board (b\<lparr>revealed_count := n\<rparr>) = wf_board b"
  by (simp_all add: wf_board_def)

lemma count_cells_scalar_update [simp]:
  "count_cells P (b\<lparr>game_over := x\<rparr>) = count_cells P b" "count_cells P (b\<lparr>win := y\<rparr>) = count_cells P b"
  "count_cells P (b\<lparr>mines_placed := z\<rparr>) = count_cells P b"
  "count_cells P (b\<lparr>revealed_count := n\<rparr>) = count_cells P b"
  by (simp_all add: count_cells_def)

lemma mine_neighbors_scalar_update [simp]:
  "mine_neighbors (b\<lparr>game_over := x\<rparr>) = mine_neighbors b" "mine_neighbors (b\<lparr>win := y\<rparr>) = mine_neighbors b"
  by (simp_all add: mine_neighbors_def neighbors_def is_inbounds_def fun_eq_iff)

section \<open>Counting cells by position\<close>

lemma count_cells_pos:
  assumes "wf_board b"
  shows "count_cells P b = int (length (filter (\<lambda>p. P (st b p)) (all_positions (cols b) (rows b))))"
  unfolding count_cells_def
  by (subst cells_as_positions[OF assms]) (simp add: filter_map comp_def st_def)

lemma count_cells_cong:
  assumes "wf_board b" "wf_board b'" "same_shape b b'" "\<And>p. inb b p \<Longrightarrow> P (st b' p) = Q (st b p)"
  shows "count_cells P b' = count_cells Q b"
proof -
  have "filter (\<lambda>p. P (st b' p)) (all_positions (cols b) (rows b)) =
        filter (\<lambda>p. Q (st b p)) (all_positions (cols b) (rows b))"
    by (rule filter_cong[OF refl]) (simp add: set_all_positions_inb assms(4))
  then show ?thesis
    using assms(1-3) by (simp add: count_cells_pos same_shape_def)
qed

lemma count_cells_zero:
  assumes "wf_board b" "\<And>p. inb b p \<Longrightarrow> \<not> P (st b p)"
  shows "count_cells P b = 0"
  using assms by (simp add: count_cells_pos filter_empty_conv set_all_positions_inb)

lemma count_cells_split:
  "count_cells P b = count_cells (\<lambda>s. P s \<and> Q s) b + count_cells (\<lambda>s. P s \<and> \<not> Q s) b"
proof -
  have "length (filter P' xs) = length (filter (\<lambda>x. P' x \<and> Q' x) xs) + length (filter (\<lambda>x. P' x \<and> \<not> Q' x) xs)"
    for P' Q' :: "cell \<Rightarrow> bool" and xs
    by (induction xs) auto
  from this[of "\<lambda>x. P (state x)" "cells b" "\<lambda>x. Q (state x)"] show ?thesis
    by (simp add: count_cells_def)
qed

lemma cell_position:
  assumes "wf_board b" "x \<in> set (cells b)"
  shows "inb b (col x, row x)" "cell_at b (col x, row x) = x"
proof -
  from assms(2) obtain i where i: "i < length (cells b)" "x = cells b ! i"
    by (auto simp: in_set_conv_nth)
  have cr: "col x = int i mod cols b" "row x = int i div cols b"
    using assms(1) i by (auto simp: wf_board_def)
  show "inb b (col x, row x)" using pos_of_index(1)[OF assms(1) i(1)] cr by (simp add: inb_def)
  show "cell_at b (col x, row x) = x"
    using pos_of_index(2)[OF assms(1) i(1)] cr i(2) by (simp add: cell_at_def)
qed

section \<open>The cases of reveal\<close>

lemma reveal_outside: "\<not> is_inbounds b c r \<Longrightarrow> reveal shuf b c r = Some b"
  by (simp add: reveal_def)

lemma reveal_first:
  assumes "\<not> mines_placed b" "is_inbounds b c r" "place_mines shuf b c r = Some b1"
    "mines_placed b1" "same_shape b b1"
  shows "reveal shuf b c r = reveal shuf b1 c r"
  using assms by (simp add: reveal_def same_shape_geom)

lemma reveal_placed:
  assumes "wf_board b" "mines_placed b" "inb b p"
  shows "reveal shuf b (fst p) (snd p) =
         (if \<not> hidden b p then Some b
          else if is_mine (st b p)
            then Some (map_state sweep_mines ((upd_at b p (\<lambda>s. s\<lparr>is_revealed := True\<rparr>))\<lparr>game_over := True\<rparr>))
            else map_option check_win (flood b [p]))"
  using assms
  by (auto simp: reveal_def inb_def get_cell_inb upd_state_inb[of b p, simplified] hidden_def st_def
      reveal_all_mines_eq split: option.splits)

section \<open>The invariant of the board\<close>

lemma adj_ok_cong:
  assumes "adj_ok b" "same_mines b b'"
  shows "adj_ok b'"
proof -
  have sh: "same_shape b b'" and eq: "\<And>q. inb b q \<Longrightarrow> is_mine (st b' q) = is_mine (st b q)"
    and ad: "\<And>q. inb b q \<Longrightarrow> adjacent (st b' q) = adjacent (st b q)"
    using assms(2) by (auto simp: same_mines_def)
  have mn: "mine_neighbors b' p = mine_neighbors b p" for p
    by (rule mine_neighbors_cong[OF sh]) (simp add: eq)
  have "adjacent (st b' p) = mine_neighbors b' p" if "inb b' p" "\<not> is_mine (st b' p)" for p
  proof -
    have i: "inb b p" using that(1) sh by (simp add: same_shape_geom)
    then have "\<not> is_mine (st b p)" using that(2) eq by simp
    then have "adjacent (st b p) = mine_neighbors b p" using assms(1) i unfolding adj_ok_def by blast
    then show ?thesis using ad[OF i] mn by simp
  qed
  then show ?thesis unfolding adj_ok_def by blast
qed

lemma same_mines_upd_at:
  assumes "wf_board b" "inb b p" "is_mine (f (st b p)) = is_mine (st b p)"
    "adjacent (f (st b p)) = adjacent (st b p)"
  shows "same_mines b (upd_at b p f)"
  unfolding same_mines_def using assms by (auto simp: st_upd_at)

lemma same_mines_map_state:
  assumes "wf_board b" "\<And>s. is_mine (g s) = is_mine s" "\<And>s. adjacent (g s) = adjacent s"
  shows "same_mines b (map_state g b)"
  unfolding same_mines_def using assms by (auto simp: st_map_state)

lemma same_mines_rev_ext: "rev_ext b b' \<Longrightarrow> same_mines b b'"
  unfolding same_mines_def rev_ext_def by blast

lemma same_mines_scalar [simp]:
  "same_mines b (b'\<lparr>game_over := x\<rparr>) = same_mines b b'" "same_mines b (b'\<lparr>win := y\<rparr>) = same_mines b b'"
  by (simp_all add: same_mines_def same_shape_def)

lemma adj_ok_scalar [simp]:
  "adj_ok (b\<lparr>game_over := x\<rparr>) = adj_ok b" "adj_ok (b\<lparr>win := y\<rparr>) = adj_ok b"
  by (simp_all add: adj_ok_def)

lemma wf_new_cells: "inb (new_board cs rs m) p \<Longrightarrow> st (new_board cs rs m) p = new_cell_state"
proof -
  assume i: "inb (new_board cs rs m) p"
  let ?b = "new_board cs rs m"
  have "nat (index ?b (fst p) (snd p)) < length (cells ?b)"
    using inb_nat_index_lt[OF wf_new_board i] .
  then show ?thesis
    by (simp add: st_def cell_at_def new_board_def new_cell_def)
qed

lemma inv_new_board: "board_inv (new_board cs rs m)"
proof -
  have "fresh (new_board cs rs m)"
    unfolding fresh_def by (auto simp: wf_new_cells new_cell_state_def) (simp_all add: new_board_def)
  moreover have "\<not> mines_placed (new_board cs rs m)" "\<not> win (new_board cs rs m)"
    "\<not> game_over (new_board cs rs m)"
    by (simp_all add: new_board_def)
  moreover have "count_ok (new_board cs rs m)"
    unfolding count_ok_def
    using count_cells_zero[OF wf_new_board, where P = "\<lambda>s. is_revealed s \<and> \<not> is_mine s"
        and cs1 = cs and rs1 = rs and m1 = m]
    by (simp add: wf_new_cells new_cell_state_def) (simp add: new_board_def)
  moreover have "mines_hidden (new_board cs rs m)" "excl (new_board cs rs m)"
    unfolding mines_hidden_def excl_def by (auto simp: wf_new_cells new_cell_state_def)
  ultimately show ?thesis by (simp add: board_inv_def wf_new_board)
qed

subsection \<open>Flags\<close>

lemma toggle_flag_wf:
  assumes "wf_board b"
  shows "toggle_flag b c r =
         Some (if is_inbounds b c r \<and> \<not> is_revealed (st b (c, r))
               then upd_at b (c, r) (\<lambda>s. s\<lparr>is_flagged := \<not> is_flagged s\<rparr>) else b)"
  using assms upd_state_inb[of b "(c, r)"]
  by (auto simp: toggle_flag_def get_cell_inb inb_def st_def)

lemma inv_flag:
  assumes inv: "board_inv b" and p: "inb b p" and u: "\<not> is_revealed (st b p)"
  shows "board_inv (upd_at b p (\<lambda>s. s\<lparr>is_flagged := \<not> is_flagged s\<rparr>))"
proof -
  let ?f = "\<lambda>s. s\<lparr>is_flagged := \<not> is_flagged s\<rparr>"
  let ?b' = "upd_at b p ?f"
  have wf: "wf_board b" using inv by (simp add: board_inv_def)
  have stq: "st ?b' q = (if q = p then ?f (st b p) else st b q)" if "inb b q" for q
    using st_upd_at[OF wf p that] .
  have sm: "same_mines b ?b'" by (rule same_mines_upd_at[OF wf p]) simp_all
  have "fresh ?b'" if "fresh b"
    using that unfolding fresh_def by (auto simp: stq)
  moreover have "adj_ok ?b'" if "adj_ok b" using adj_ok_cong[OF that sm] .
  moreover have "count_ok ?b'" if "count_ok b"
    using that unfolding count_ok_def by (simp add: count_cells_upd_at[OF wf p])
  moreover have "mines_hidden ?b'" if "mines_hidden b"
    using that unfolding mines_hidden_def by (auto simp: stq)
  moreover have "mines_shown ?b'" if "mines_shown b"
    using that unfolding mines_shown_def by (auto simp: stq)
  moreover have "excl ?b'" if "excl b"
    using that u unfolding excl_def by (auto simp: stq)
  moreover have "safe_shown ?b'" if "safe_shown b"
    using that unfolding safe_shown_def by (auto simp: stq)
  ultimately show ?thesis
    using inv wf unfolding board_inv_def by simp
qed

lemma inv_toggle_flag:
  assumes "board_inv b"
  shows "\<exists>b'. toggle_flag b c r = Some b' \<and> board_inv b'"
proof -
  have wf: "wf_board b" using assms by (simp add: board_inv_def)
  show ?thesis
    using assms inv_flag[OF assms, of "(c, r)"]
    by (simp add: toggle_flag_wf[OF wf] inb_def)
qed

subsection \<open>Placement\<close>

lemma inv_place_mines:
  assumes inv: "board_inv b" and np: "\<not> mines_placed b" and sh: "is_shuffle shuf"
  shows "\<exists>b1. place_mines shuf b c r = Some b1 \<and> board_inv b1 \<and> mines_placed b1 \<and>
           same_shape b b1 \<and> num_mines b1 = num_mines b \<and> \<not> game_over b1 \<and> \<not> win b1 \<and>
           (\<forall>q. inb b q \<longrightarrow>
              is_mine (st b1 q) = (q \<in> drawn shuf b c r) \<and> \<not> is_revealed (st b1 q) \<and>
              is_flagged (st b1 q) = is_flagged (st b q))"
proof -
  have wf: "wf_board b" and fr: "fresh b" using inv np by (auto simp: board_inv_def)
  from place_mines_wf[OF wf sh, of c r] obtain b1 where
    b1: "place_mines shuf b c r = Some b1" "wf_board b1" "same_shape b b1"
      "num_mines b1 = num_mines b" "mines_placed b1" "revealed_count b1 = revealed_count b"
      "game_over b1 = game_over b" "win b1 = win b"
    and cw: "\<forall>q. inb b q \<longrightarrow>
              is_mine (st b1 q) = (is_mine (st b q) \<or> q \<in> drawn shuf b c r) \<and>
              is_revealed (st b1 q) = is_revealed (st b q) \<and>
              is_flagged (st b1 q) = is_flagged (st b q) \<and>
              adjacent (st b1 q) = (if is_mine (st b1 q) then adjacent (st b q) else mine_neighbors b1 q)"
    by blast
  have g: "inb b1 = inb b" using b1(3) by (simp add: same_shape_geom)
  have fq: "\<not> is_mine (st b q)" "\<not> is_revealed (st b q)" if "inb b q" for q
    using fr that unfolding fresh_def by blast+
  have cq: "is_mine (st b1 q) = (q \<in> drawn shuf b c r)" "\<not> is_revealed (st b1 q)"
    "is_flagged (st b1 q) = is_flagged (st b q)"
    "\<not> is_mine (st b1 q) \<Longrightarrow> adjacent (st b1 q) = mine_neighbors b1 q" if "inb b q" for q
    using cw[rule_format, OF that] fq[OF that] by auto
  have "adj_ok b1" unfolding adj_ok_def g using cq(4) by blast
  moreover have "count_ok b1"
    unfolding count_ok_def
    using count_cells_zero[OF b1(2), where P = "\<lambda>s. is_revealed s \<and> \<not> is_mine s"] cq(2) fr b1(6)
    by (simp add: g fresh_def)
  moreover have "mines_hidden b1" "excl b1"
    unfolding mines_hidden_def excl_def g using cq(2) by blast+
  moreover have "\<not> game_over b1" "\<not> win b1" using fr b1(7,8) by (auto simp: fresh_def)
  ultimately have "board_inv b1" using b1(2,5) by (simp add: board_inv_def)
  then show ?thesis
    using b1 cq \<open>\<not> game_over b1\<close> \<open>\<not> win b1\<close> by blast
qed

subsection \<open>Loss\<close>

lemma scalars_lose [simp]:
  "cols (lose b p) = cols b" "rows (lose b p) = rows b" "num_mines (lose b p) = num_mines b"
  "mines_placed (lose b p) = mines_placed b" "revealed_count (lose b p) = revealed_count b"
  "game_over (lose b p)" "win (lose b p) = win b"
  by (simp_all add: lose_def upd_at_def map_state_def)

lemma st_lose:
  assumes "wf_board b" "inb b p" "inb b q"
  shows "st (lose b p) q = sweep_mines (if q = p then (st b p)\<lparr>is_revealed := True\<rparr> else st b q)"
proof -
  let ?b1 = "(upd_at b p (\<lambda>s. s\<lparr>is_revealed := True\<rparr>))\<lparr>game_over := True\<rparr>"
  have "wf_board ?b1" "inb ?b1 q" using assms by simp_all
  then have "st (lose b p) q = sweep_mines (st ?b1 q)"
    unfolding lose_def by (rule st_map_state)
  then show ?thesis using assms by (simp add: st_upd_at)
qed

lemma inv_lose:
  assumes inv: "board_inv b" and mp: "mines_placed b" and p: "inb b p" and m: "is_mine (st b p)"
  shows "board_inv (lose b p)"
proof -
  have wf: "wf_board b" using inv by (simp add: board_inv_def)
  have wf': "wf_board (lose b p)" using wf by (simp add: lose_def)
  have sh: "same_shape b (lose b p)" by (simp add: same_shape_def)
  have g: "inb (lose b p) = inb b" using sh by (simp add: same_shape_geom)
  note stl = st_lose[OF wf p]
  have "same_mines b (lose b p)"
    unfolding same_mines_def using sh by (auto simp: stl sweep_mines_def)
  then have "adj_ok (lose b p)" using adj_ok_cong inv mp by (auto simp: board_inv_def)
  moreover have "count_ok (lose b p)" if "count_ok b"
  proof -
    have "count_cells (\<lambda>s. is_revealed s \<and> \<not> is_mine s) (lose b p)
          = count_cells (\<lambda>s. is_revealed s \<and> \<not> is_mine s) b"
      by (rule count_cells_cong[OF wf wf' sh]) (use m in \<open>auto simp: stl sweep_mines_def\<close>)
    then show ?thesis using that by (simp add: count_ok_def)
  qed
  moreover have "mines_shown (lose b p)"
    unfolding mines_shown_def g by (auto simp: stl sweep_mines_def)
  moreover have "safe_shown (lose b p)" if "safe_shown b"
    using that unfolding safe_shown_def g by (auto simp: stl sweep_mines_def)
  ultimately show ?thesis
    using inv wf' mp by (simp add: board_inv_def)
qed

subsection \<open>Win\<close>

lemma inv_check_win:
  assumes inv: "board_inv b" and mp: "mines_placed b"
  shows "board_inv (check_win b)"
proof (cases "win_now b")
  case False
  then show ?thesis using inv by (simp add: check_win_eq)
next
  case True
  let ?b' = "(map_state sweep_safe b)\<lparr>win := True\<rparr>"
  have wf: "wf_board b" using inv by (simp add: board_inv_def)
  have ng: "\<not> game_over b" using True by (simp add: win_now_def)
  have stw: "st ?b' q = sweep_safe (st b q)" if "inb b q" for q
    using st_map_state[OF wf that] by simp
  have "same_mines b (map_state sweep_safe b)"
    by (rule same_mines_map_state[OF wf]) (simp_all add: sweep_safe_def)
  then have "adj_ok ?b'" using adj_ok_cong inv mp by (auto simp: board_inv_def)
  moreover have "mines_hidden ?b'"
  proof -
    have mh: "mines_hidden b" using inv ng by (simp add: board_inv_def)
    have "\<not> is_revealed (st ?b' q)" if "inb ?b' q" "is_mine (st ?b' q)" for q
    proof -
      have i: "inb b q" using that(1) by simp
      then have "is_mine (st b q)" using that(2) stw[OF i] by (simp add: sweep_safe_def split: if_splits)
      moreover from this have "\<not> is_revealed (st b q)" using mh i unfolding mines_hidden_def by blast
      ultimately show ?thesis using stw[OF i] by (simp add: sweep_safe_def)
    qed
    then show ?thesis unfolding mines_hidden_def by blast
  qed
  moreover have "safe_shown ?b'"
    unfolding safe_shown_def by (auto simp: st_map_state[OF wf] sweep_safe_def)
  ultimately have "board_inv ?b'"
    using wf mp ng by (simp add: board_inv_def)
  then show ?thesis using True by (simp add: check_win_eq)
qed

subsection \<open>Flood fill\<close>

lemma flood_one:
  assumes wf: "wf_board b" and p: "inb b p"
  shows "\<exists>b'. flood b [p] = Some b' \<and> rev_ext b b' \<and>
           (\<forall>q. inb b q \<longrightarrow> (is_revealed (st b' q) \<longleftrightarrow> is_revealed (st b q) \<or> q \<in> flood_set b {p})) \<and>
           revealed_count b' - count_cells is_revealed b' = revealed_count b - count_cells is_revealed b"
proof -
  have all: "\<forall>q\<in>set [p]. inb b q" using p by simp
  from flood_rev_ext[OF wf all] obtain b' where b': "flood b [p] = Some b'" "rev_ext b b'" by blast
  have "is_revealed (st b' q) \<longleftrightarrow> is_revealed (st b q) \<or> q \<in> flood_set b {p}" if "inb b q" for q
    using flood_char[OF wf all b'(1) that] by simp
  moreover note flood_count[OF wf all b'(1)]
  ultimately show ?thesis using b' by blast
qed

lemma inv_flood:
  assumes inv: "board_inv b" and mp: "mines_placed b" and p: "inb b p" and nm: "\<not> is_mine (st b p)"
    and fl: "flood b [p] = Some b'"
  shows "board_inv b'"
proof -
  have wf: "wf_board b" and adj: "adj_ok b" using inv mp by (auto simp: board_inv_def)
  from flood_one[OF wf p] fl have re: "rev_ext b b'"
    and ch: "\<And>q. inb b q \<Longrightarrow> (is_revealed (st b' q) \<longleftrightarrow> is_revealed (st b q) \<or> q \<in> flood_set b {p})"
    and cn: "revealed_count b' - count_cells is_revealed b' = revealed_count b - count_cells is_revealed b"
    by auto
  have wf': "wf_board b'" and sh: "same_shape b b'" and g: "inb b' = inb b"
    and sc: "mines_placed b' = mines_placed b" "game_over b' = game_over b" "win b' = win b"
    using re by (auto simp: rev_ext_def same_shape_geom)
  have same: "is_mine (st b' q) = is_mine (st b q)" "is_flagged (st b' q) = is_flagged (st b q)"
    if "inb b q" for q
    using re that unfolding rev_ext_def by blast+
  have new: "\<not> is_mine (st b q) \<and> hidden b q" if "q \<in> flood_set b {p}" for q
    using flood_set_safe[OF adj _ that] flood_set_hidden[OF that] p nm by simp
  have "adj_ok b'" using adj_ok_cong[OF adj same_mines_rev_ext[OF re]] .
  moreover have "count_ok b'" if "count_ok b"
  proof -
    let ?RM = "\<lambda>s. is_revealed s \<and> is_mine s" and ?RN = "\<lambda>s. is_revealed s \<and> \<not> is_mine s"
    have "count_cells ?RM b' = count_cells ?RM b"
      by (rule count_cells_cong[OF wf wf' sh]) (use ch same new in auto)
    moreover have "count_cells is_revealed b' = count_cells ?RM b' + count_cells ?RN b'"
      "count_cells is_revealed b = count_cells ?RM b + count_cells ?RN b"
      by (rule count_cells_split)+
    ultimately show ?thesis using cn that by (simp add: count_ok_def)
  qed
  moreover have "mines_hidden b'" if "mines_hidden b"
    using that unfolding mines_hidden_def g using ch same new by blast
  moreover have "mines_shown b'" if "mines_shown b"
    using that unfolding mines_shown_def g using ch same by blast
  moreover have "excl b'" if "excl b"
    using that unfolding excl_def g using ch same new by (auto simp: hidden_def)
  moreover have "safe_shown b'" if "safe_shown b"
    using that unfolding safe_shown_def g using ch same by blast
  ultimately show ?thesis
    using inv wf' mp sc by (simp add: board_inv_def)
qed

subsection \<open>Every call keeps the invariant\<close>

lemma inv_reveal_placed:
  assumes inv: "board_inv b" and mp: "mines_placed b"
  shows "\<exists>b'. reveal shuf b c r = Some b' \<and> board_inv b'"
proof (cases "is_inbounds b c r")
  case False
  then show ?thesis using inv by (simp add: reveal_outside)
next
  case True
  then have p: "inb b (c, r)" by (simp add: inb_def)
  have wf: "wf_board b" using inv by (simp add: board_inv_def)
  note rp = reveal_placed[OF wf mp p, of shuf, simplified]
  show ?thesis
  proof (cases "hidden b (c, r)")
    case False
    then show ?thesis using inv rp by simp
  next
    case h: True
    show ?thesis
    proof (cases "is_mine (st b (c, r))")
      case True
      then show ?thesis
        using rp h inv_lose[OF inv mp p True] by (simp add: lose_def)
    next
      case False
      from flood_one[OF wf p] obtain b3 where b3: "flood b [(c, r)] = Some b3" "rev_ext b b3" by blast
      have "board_inv b3" using inv_flood[OF inv mp p False b3(1)] .
      moreover have "mines_placed b3" using b3(2) mp by (simp add: rev_ext_def)
      ultimately have "board_inv (check_win b3)" by (rule inv_check_win)
      then show ?thesis using rp h False b3(1) by simp
    qed
  qed
qed

lemma inv_reveal:
  assumes inv: "board_inv b" and sh: "is_shuffle shuf"
  shows "\<exists>b'. reveal shuf b c r = Some b' \<and> board_inv b'"
proof (cases "mines_placed b \<or> \<not> is_inbounds b c r")
  case True
  then show ?thesis
    using inv_reveal_placed[OF inv] inv by (auto simp: reveal_outside)
next
  case False
  then have np: "\<not> mines_placed b" and ib: "is_inbounds b c r" by auto
  from inv_place_mines[OF inv np sh, of c r] obtain b1 where
    b1: "place_mines shuf b c r = Some b1" "board_inv b1" "mines_placed b1" "same_shape b b1"
    by blast
  have "reveal shuf b c r = reveal shuf b1 c r"
    using reveal_first[OF np ib b1(1,3,4)] .
  then show ?thesis using inv_reveal_placed[OF b1(2,3), of shuf c r] by simp
qed

lemma inv_hint_reveal:
  assumes "board_inv b" "is_shuffle shuf"
  shows "\<exists>b'. hint_reveal shuf pick b = Some b' \<and> board_inv b'"
  using assms inv_reveal[OF assms] by (auto simp: hint_reveal_def Let_def)

lemma inv_step:
  assumes "board_inv b" "is_shuffle shuf"
  shows "\<exists>b'. step shuf b x = Some b' \<and> board_inv b'"
  using inv_reveal[OF assms] inv_toggle_flag[OF assms(1)] inv_hint_reveal[OF assms]
  by (cases x) simp_all

lemma inv_run:
  assumes "board_inv b" "is_shuffle shuf"
  shows "\<exists>b'. run shuf b xs = Some b' \<and> board_inv b'"
  using assms(1)
proof (induction xs arbitrary: b)
  case Nil
  then show ?case by simp
next
  case (Cons x xs)
  from inv_step[OF Cons.prems assms(2), of x] obtain b1 where
    "step shuf b x = Some b1" "board_inv b1" by blast
  then show ?case using Cons.IH[of b1] by simp
qed

lemma reachable_inv:
  assumes "is_shuffle shuf"
  shows "\<exists>b. run shuf (new_board cs rs m) xs = Some b \<and> board_inv b"
  using inv_run[OF inv_new_board assms] .

section \<open>What a call can change\<close>

lemma progress_refl: "progress b b"
  by (simp add: progress_def)

lemma progress_trans:
  assumes "progress a b" "progress b c"
  shows "progress a c"
proof -
  have g: "inb b = inb a" using assms(1) by (simp add: progress_def same_shape_geom)
  show ?thesis
    using assms g by (auto simp: progress_def same_shape_def)
qed

lemma progress_rev_ext: "rev_ext b b' \<Longrightarrow> progress b b'"
  unfolding progress_def rev_ext_def by blast

lemma sweep_safe_fields [simp]:
  "is_revealed (sweep_safe s) = (is_revealed s \<or> \<not> is_mine s)" "is_mine (sweep_safe s) = is_mine s"
  "is_flagged (sweep_safe s) = is_flagged s" "adjacent (sweep_safe s) = adjacent s"
  by (simp_all add: sweep_safe_def)

lemma sweep_mines_fields [simp]:
  "is_revealed (sweep_mines s) = (is_revealed s \<or> is_mine s)" "is_mine (sweep_mines s) = is_mine s"
  "is_flagged (sweep_mines s) = is_flagged s" "adjacent (sweep_mines s) = adjacent s"
  by (simp_all add: sweep_mines_def)

lemma check_win_facts:
  assumes wf: "wf_board b"
  shows "same_shape b (check_win b)" "num_mines (check_win b) = num_mines b"
    "mines_placed (check_win b) = mines_placed b" "game_over (check_win b) = game_over b"
    "revealed_count (check_win b) = revealed_count b"
    "win (check_win b) = (win b \<or> win_now b)"
    "inb b q \<Longrightarrow> st (check_win b) q = (if win_now b then sweep_safe (st b q) else st b q)"
  using st_map_state[OF wf, of q sweep_safe]
  by (auto simp: check_win_eq same_shape_def)

lemma progress_check_win:
  assumes "wf_board b"
  shows "progress b (check_win b)"
proof -
  note cw = check_win_facts[OF assms]
  have "is_revealed (st b q) \<longrightarrow> is_revealed (st (check_win b) q)"
    "is_mine (st (check_win b) q) = is_mine (st b q)" if "inb b q" for q
    using cw(7)[OF that] by simp_all
  moreover have "game_over b \<longrightarrow> win (check_win b) = win b"
    using cw(6) by (simp add: win_now_def)
  ultimately show ?thesis
    unfolding progress_def using cw(1-4,6) by simp
qed

lemma progress_lose:
  assumes "wf_board b" "inb b p"
  shows "progress b (lose b p)"
proof -
  have "is_revealed (st b q) \<longrightarrow> is_revealed (st (lose b p) q)"
    "is_mine (st (lose b p) q) = is_mine (st b q)" if "inb b q" for q
    using st_lose[OF assms that] by simp_all
  then show ?thesis
    unfolding progress_def by (simp add: same_shape_def)
qed

text \<open>A reveal once the mines are placed.\<close>

lemma reveal_placed_cases:
  assumes inv: "board_inv b" and mp: "mines_placed b" and rv: "reveal shuf b c r = Some b'"
  obtains (noop) "\<not> is_inbounds b c r \<or> \<not> hidden b (c, r)" "b' = b"
  | (mine) "inb b (c, r)" "hidden b (c, r)" "is_mine (st b (c, r))" "b' = lose b (c, r)"
  | (safe) b3 where "inb b (c, r)" "hidden b (c, r)" "\<not> is_mine (st b (c, r))"
      "flood b [(c, r)] = Some b3" "b' = check_win b3"
proof (cases "is_inbounds b c r")
  case False
  show ?thesis by (rule noop) (use False rv in \<open>simp_all add: reveal_outside\<close>)
next
  case True
  then have p: "inb b (c, r)" by (simp add: inb_def)
  have wf: "wf_board b" using inv by (simp add: board_inv_def)
  note rp = reveal_placed[OF wf mp p, of shuf, simplified]
  show ?thesis
  proof (cases "hidden b (c, r)")
    case False
    show ?thesis by (rule noop) (use False rv rp in simp_all)
  next
    case h: True
    show ?thesis
    proof (cases "is_mine (st b (c, r))")
      case True
      show ?thesis by (rule mine) (use True rv rp h p in \<open>simp_all add: lose_def\<close>)
    next
      case False
      then obtain b3 where "flood b [(c, r)] = Some b3" "b' = check_win b3"
        using rv rp h by auto
      then show ?thesis using safe[OF p h False] by blast
    qed
  qed
qed

lemma reveal_placed_facts:
  assumes inv: "board_inv b" and mp: "mines_placed b" and rv: "reveal shuf b c r = Some b'"
  shows "progress b b'"
    and "\<forall>q. inb b q \<longrightarrow> is_flagged (st b' q) = is_flagged (st b q)"
    and "is_inbounds b c r \<and> hidden b (c, r) \<and> is_mine (st b (c, r)) \<longrightarrow> game_over b'"
    and "\<not> (is_inbounds b c r \<and> hidden b (c, r) \<and> is_mine (st b (c, r))) \<longrightarrow>
           game_over b' = game_over b \<and>
           (\<forall>q. inb b q \<longrightarrow> is_mine (st b q) \<longrightarrow> is_revealed (st b' q) = is_revealed (st b q))"
    and "is_inbounds b c r \<and> hidden b (c, r) \<and> \<not> is_mine (st b (c, r)) \<longrightarrow>
           (\<forall>q. inb b q \<longrightarrow>
              (is_revealed (st b' q) \<longleftrightarrow>
                 is_revealed (st b q) \<or> q \<in> flood_set b {(c, r)} \<or>
                 (win b' \<and> \<not> win b \<and> \<not> is_mine (st b q))))"
proof -
  have wf: "wf_board b" and adj: "adj_ok b" using inv mp by (auto simp: board_inv_def)
  from inv mp rv have
    "progress b b' \<and>
     (\<forall>q. inb b q \<longrightarrow> is_flagged (st b' q) = is_flagged (st b q)) \<and>
     (is_inbounds b c r \<and> hidden b (c, r) \<and> is_mine (st b (c, r)) \<longrightarrow> game_over b') \<and>
     (\<not> (is_inbounds b c r \<and> hidden b (c, r) \<and> is_mine (st b (c, r))) \<longrightarrow>
           game_over b' = game_over b \<and>
           (\<forall>q. inb b q \<longrightarrow> is_mine (st b q) \<longrightarrow> is_revealed (st b' q) = is_revealed (st b q))) \<and>
     (is_inbounds b c r \<and> hidden b (c, r) \<and> \<not> is_mine (st b (c, r)) \<longrightarrow>
           (\<forall>q. inb b q \<longrightarrow>
              (is_revealed (st b' q) \<longleftrightarrow>
                 is_revealed (st b q) \<or> q \<in> flood_set b {(c, r)} \<or>
                 (win b' \<and> \<not> win b \<and> \<not> is_mine (st b q)))))"
  proof (cases rule: reveal_placed_cases)
    case noop
    then show ?thesis by (auto simp: progress_refl inb_def)
  next
    case mine
    have "is_flagged (st b' q) = is_flagged (st b q)" if "inb b q" for q
      using st_lose[OF wf mine(1) that] mine(4) by simp
    then show ?thesis
      using mine progress_lose[OF wf mine(1)] by (simp add: inb_def)
  next
    case (safe b3)
    from flood_one[OF wf safe(1)] safe(4) have re: "rev_ext b b3"
      and ch: "\<And>q. inb b q \<Longrightarrow> (is_revealed (st b3 q) \<longleftrightarrow> is_revealed (st b q) \<or> q \<in> flood_set b {(c, r)})"
      by auto
    have wf3: "wf_board b3" and g: "inb b3 = inb b" and sc: "game_over b3 = game_over b" "win b3 = win b"
      using re by (auto simp: rev_ext_def same_shape_geom)
    have same: "is_mine (st b3 q) = is_mine (st b q)" "is_flagged (st b3 q) = is_flagged (st b q)"
      if "inb b q" for q
      using re that unfolding rev_ext_def by blast+
    have new: "\<not> is_mine (st b q)" if "q \<in> flood_set b {(c, r)}" for q
      using flood_set_safe[OF adj _ that] safe(1,3) by simp
    have nw: "\<not> win b"
    proof
      assume "win b"
      then have "safe_shown b" using inv by (simp add: board_inv_def)
      then show False using safe(1,2,3) unfolding safe_shown_def hidden_def by blast
    qed
    note cw = check_win_facts[OF wf3]
    have stq: "st b' q = (if win_now b3 then sweep_safe (st b3 q) else st b3 q)" if "inb b q" for q
      using cw(7)[of q] that g safe(5) by simp
    have 1: "progress b b'"
      using progress_trans[OF progress_rev_ext[OF re] progress_check_win[OF wf3]] safe(5) by simp
    have 2: "is_flagged (st b' q) = is_flagged (st b q)" if "inb b q" for q
      using stq[OF that] same[OF that] by simp
    have 3: "game_over b' = game_over b" using cw(4) sc safe(5) by simp
    have 4: "is_revealed (st b' q) = is_revealed (st b q)" if "inb b q" "is_mine (st b q)" for q
      using stq[OF that(1)] same[OF that(1)] ch[OF that(1)] new[of q] that(2)
      by auto
    have 5: "is_revealed (st b' q) \<longleftrightarrow>
                 is_revealed (st b q) \<or> q \<in> flood_set b {(c, r)} \<or>
                 (win b' \<and> \<not> win b \<and> \<not> is_mine (st b q))" if "inb b q" for q
    proof (cases "win_now b3")
      case True
      then have "win b'" using cw(6) safe(5) by simp
      moreover have "is_revealed (st b' q) \<longleftrightarrow> is_revealed (st b3 q) \<or> \<not> is_mine (st b q)"
        using stq[OF that] same[OF that] True by simp
      ultimately show ?thesis
        using ch[OF that] nw new[of q] by blast
    next
      case False
      then have "win b' = win b" using cw(6) safe(5) sc by simp
      then show ?thesis using stq[OF that] ch[OF that] False by auto
    qed
    show ?thesis using 1 2 3 4 5 safe(3) by blast
  qed
  then show "progress b b'"
    and "\<forall>q. inb b q \<longrightarrow> is_flagged (st b' q) = is_flagged (st b q)"
    and "is_inbounds b c r \<and> hidden b (c, r) \<and> is_mine (st b (c, r)) \<longrightarrow> game_over b'"
    and "\<not> (is_inbounds b c r \<and> hidden b (c, r) \<and> is_mine (st b (c, r))) \<longrightarrow>
           game_over b' = game_over b \<and>
           (\<forall>q. inb b q \<longrightarrow> is_mine (st b q) \<longrightarrow> is_revealed (st b' q) = is_revealed (st b q))"
    and "is_inbounds b c r \<and> hidden b (c, r) \<and> \<not> is_mine (st b (c, r)) \<longrightarrow>
           (\<forall>q. inb b q \<longrightarrow>
              (is_revealed (st b' q) \<longleftrightarrow>
                 is_revealed (st b q) \<or> q \<in> flood_set b {(c, r)} \<or>
                 (win b' \<and> \<not> win b \<and> \<not> is_mine (st b q))))"
    by blast+
qed

lemma progress_mine: "progress b b' \<Longrightarrow> mines_placed b \<Longrightarrow> inb b q \<Longrightarrow> is_mine (st b' q) = is_mine (st b q)"
  unfolding progress_def by blast

lemma progress_revealed: "progress b b' \<Longrightarrow> inb b q \<Longrightarrow> is_revealed (st b q) \<Longrightarrow> is_revealed (st b' q)"
  unfolding progress_def by blast

lemma progress_scalars:
  assumes "progress b b'"
  shows "same_shape b b'" "num_mines b' = num_mines b" "mines_placed b \<Longrightarrow> mines_placed b'"
    "game_over b \<Longrightarrow> game_over b'" "win b \<Longrightarrow> win b'" "game_over b \<Longrightarrow> win b' = win b"
  using assms unfolding progress_def by blast+

text \<open>Any reveal, the first one included.\<close>

lemma reveal_facts:
  assumes inv: "board_inv b" and sh: "is_shuffle shuf" and rv: "reveal shuf b c r = Some b'"
  shows "progress b b'"
    and "\<forall>q. inb b q \<longrightarrow> is_flagged (st b' q) = is_flagged (st b q)"
    and "(is_inbounds b c r \<longrightarrow> \<not> is_mine (st b' (c, r))) \<longrightarrow>
           game_over b' = game_over b \<and>
           (\<forall>q. inb b q \<longrightarrow> is_mine (st b' q) \<longrightarrow> is_revealed (st b' q) = is_revealed (st b q))"
proof -
  have "progress b b' \<and>
    (\<forall>q. inb b q \<longrightarrow> is_flagged (st b' q) = is_flagged (st b q)) \<and>
    ((is_inbounds b c r \<longrightarrow> \<not> is_mine (st b' (c, r))) \<longrightarrow>
           game_over b' = game_over b \<and>
           (\<forall>q. inb b q \<longrightarrow> is_mine (st b' q) \<longrightarrow> is_revealed (st b' q) = is_revealed (st b q)))"
  proof (cases "mines_placed b")
    case True
    note f = reveal_placed_facts[OF inv True rv]
    have m: "is_mine (st b' q) = is_mine (st b q)" if "inb b q" for q
      using progress_mine[OF f(1) True that] .
    have "game_over b' = game_over b \<and>
           (\<forall>q. inb b q \<longrightarrow> is_mine (st b' q) \<longrightarrow> is_revealed (st b' q) = is_revealed (st b q))"
      if "is_inbounds b c r \<longrightarrow> \<not> is_mine (st b' (c, r))"
    proof -
      have "\<not> (is_inbounds b c r \<and> hidden b (c, r) \<and> is_mine (st b (c, r)))"
        using that m[of "(c, r)"] by (auto simp: inb_def)
      with f(4) show ?thesis using m by blast
    qed
    then show ?thesis using f(1,2) by blast
  next
    case np: False
    show ?thesis
    proof (cases "is_inbounds b c r")
      case False
      then have "b' = b" using rv by (simp add: reveal_outside)
      then show ?thesis by (simp add: progress_refl)
    next
      case ib: True
      from inv_place_mines[OF inv np sh, of c r] obtain b1 where
        b1: "place_mines shuf b c r = Some b1" "board_inv b1" "mines_placed b1" "same_shape b b1"
          "num_mines b1 = num_mines b" "\<not> game_over b1" "\<not> win b1"
        and cw: "\<forall>q. inb b q \<longrightarrow>
              is_mine (st b1 q) = (q \<in> drawn shuf b c r) \<and> \<not> is_revealed (st b1 q) \<and>
              is_flagged (st b1 q) = is_flagged (st b q)"
        by blast
      have g: "inb b1 = inb b" "is_inbounds b1 = is_inbounds b" using b1(4) by (simp_all add: same_shape_geom)
      have fr: "fresh b" using inv np by (simp add: board_inv_def)
      have rv1: "reveal shuf b1 c r = Some b'"
        using reveal_first[OF np ib b1(1,3,4)] rv by simp
      note f = reveal_placed_facts[OF b1(2,3) rv1]
      have m: "is_mine (st b' q) = is_mine (st b1 q)" if "inb b q" for q
        using progress_mine[OF f(1) b1(3), of q] that g by simp
      have "\<not> is_mine (st b1 (c, r))"
        using cw[rule_format, of "(c, r)"] ib drawn_safe(2)[OF sh, of "(c, r)" b c r] by (auto simp: inb_def)
      then have safe: "game_over b' = game_over b1"
        "\<And>q. inb b q \<Longrightarrow> is_mine (st b1 q) \<Longrightarrow> is_revealed (st b' q) = is_revealed (st b1 q)"
        using f(4) g by auto
      have p1: "progress b b'"
      proof -
        have "same_shape b b'" "num_mines b' = num_mines b"
          using progress_scalars(1,2)[OF f(1)] b1(4,5) by (simp_all add: same_shape_def)
        moreover have "\<not> is_revealed (st b q)" if "inb b q" for q
          using fr that unfolding fresh_def by blast
        moreover have "\<not> game_over b" "\<not> win b" using fr by (simp_all add: fresh_def)
        ultimately show ?thesis unfolding progress_def using np by simp
      qed
      have p2: "is_flagged (st b' q) = is_flagged (st b q)" if "inb b q" for q
      proof -
        have "inb b1 q" using that g by simp
        then have "is_flagged (st b' q) = is_flagged (st b1 q)" using f(2) by blast
        also have "\<dots> = is_flagged (st b q)" using cw that by blast
        finally show ?thesis .
      qed
      have p3: "game_over b' = game_over b" using safe(1) b1(6) fr by (simp add: fresh_def)
      have p4: "is_revealed (st b' q) = is_revealed (st b q)" if "inb b q" "is_mine (st b' q)" for q
      proof -
        have "is_mine (st b1 q)" using m[OF that(1)] that(2) by simp
        then have "is_revealed (st b' q) = is_revealed (st b1 q)" using safe(2)[OF that(1)] by simp
        moreover have "\<not> is_revealed (st b1 q)" using cw that(1) by blast
        moreover have "\<not> is_revealed (st b q)" using fr that(1) unfolding fresh_def by blast
        ultimately show ?thesis by simp
      qed
      show ?thesis using p1 p2 p3 p4 by blast
    qed
  qed
  then show "progress b b'"
    and "\<forall>q. inb b q \<longrightarrow> is_flagged (st b' q) = is_flagged (st b q)"
    and "(is_inbounds b c r \<longrightarrow> \<not> is_mine (st b' (c, r))) \<longrightarrow>
           game_over b' = game_over b \<and>
           (\<forall>q. inb b q \<longrightarrow> is_mine (st b' q) \<longrightarrow> is_revealed (st b' q) = is_revealed (st b q))"
    by blast+
qed

lemma toggle_flag_facts:
  assumes wf: "wf_board b" and tf: "toggle_flag b c r = Some b'"
  shows "progress b b'" and "game_over b' = game_over b" and "win b' = win b"
    and "revealed_count b' = revealed_count b"
    and "\<forall>q. inb b q \<longrightarrow> is_revealed (st b' q) = is_revealed (st b q) \<and> is_mine (st b' q) = is_mine (st b q)"
proof -
  let ?f = "\<lambda>s. s\<lparr>is_flagged := \<not> is_flagged s\<rparr>"
  have cases: "b' = b \<or> (inb b (c, r) \<and> b' = upd_at b (c, r) ?f)"
    using tf toggle_flag_wf[OF wf, of c r] by (auto simp: inb_def split: if_splits)
  have cellw: "is_revealed (st b' q) = is_revealed (st b q) \<and> is_mine (st b' q) = is_mine (st b q)"
    if "inb b q" for q
    using cases st_upd_at[OF wf _ that, of "(c, r)" ?f] by (cases "q = (c, r)") auto
  show "game_over b' = game_over b" "win b' = win b" "revealed_count b' = revealed_count b"
    using cases by auto
  show "\<forall>q. inb b q \<longrightarrow> is_revealed (st b' q) = is_revealed (st b q) \<and> is_mine (st b' q) = is_mine (st b q)"
    using cellw by blast
  have "same_shape b b'" "num_mines b' = num_mines b" "mines_placed b' = mines_placed b"
    "game_over b' = game_over b" "win b' = win b"
    using cases by auto
  then show "progress b b'"
    unfolding progress_def using cellw by simp
qed

lemma hint_target:
  assumes wf: "wf_board b"
    and h: "h \<in> set (filter (\<lambda>x. \<not> is_mine (state x) \<and> \<not> is_revealed (state x) \<and> \<not> is_flagged (state x)) (cells b))"
  shows "is_inbounds b (col h) (row h)" "\<not> is_mine (st b (col h, row h))" "hidden b (col h, row h)"
proof -
  have h': "h \<in> set (cells b)" "\<not> is_mine (state h)" "\<not> is_revealed (state h)" "\<not> is_flagged (state h)"
    using h by auto
  from cell_position[OF wf h'(1)] show "is_inbounds b (col h) (row h)"
    "\<not> is_mine (st b (col h, row h))" "hidden b (col h, row h)"
    using h'(2-4) by (simp_all add: inb_def st_def hidden_def)
qed

lemma hint_reveal_facts:
  assumes inv: "board_inv b" and sh: "is_shuffle shuf" and hr: "hint_reveal shuf pick b = Some b'"
  shows "progress b b'"
    and "\<forall>q. inb b q \<longrightarrow> is_flagged (st b' q) = is_flagged (st b q)"
    and "game_over b' = game_over b"
    and "\<forall>q. inb b q \<longrightarrow> is_mine (st b' q) \<longrightarrow> is_revealed (st b' q) = is_revealed (st b q)"
proof -
  let ?safe = "filter (\<lambda>x. \<not> is_mine (state x) \<and> \<not> is_revealed (state x) \<and> \<not> is_flagged (state x)) (cells b)"
  let ?h = "?safe ! (pick mod length ?safe)"
  have wf: "wf_board b" using inv by (simp add: board_inv_def)
  have "progress b b' \<and> (\<forall>q. inb b q \<longrightarrow> is_flagged (st b' q) = is_flagged (st b q)) \<and>
        game_over b' = game_over b \<and>
        (\<forall>q. inb b q \<longrightarrow> is_mine (st b' q) \<longrightarrow> is_revealed (st b' q) = is_revealed (st b q))"
  proof (cases "\<not> mines_placed b \<or> game_over b \<or> win b \<or> ?safe = []")
    case True
    then have "b' = b" using hr by (auto simp: hint_reveal_def Let_def split: if_splits)
    then show ?thesis by (simp add: progress_refl)
  next
    case False
    then have mp: "mines_placed b" and ne: "?safe \<noteq> []" by auto
    have rv: "reveal shuf b (col ?h) (row ?h) = Some b'"
      using hr False by (simp add: hint_reveal_def Let_def)
    have "?h \<in> set ?safe" using ne by (intro nth_mem) simp
    note t = hint_target[OF wf this]
    note f = reveal_facts[OF inv sh rv]
    have "is_mine (st b' (col ?h, row ?h)) = is_mine (st b (col ?h, row ?h))"
      using progress_mine[OF f(1) mp, of "(col ?h, row ?h)"] t(1) by (simp add: inb_def)
    then have "\<not> is_mine (st b' (col ?h, row ?h))" using t(2) by simp
    with f(3) show ?thesis using f(1,2) by blast
  qed
  then show "progress b b'"
    and "\<forall>q. inb b q \<longrightarrow> is_flagged (st b' q) = is_flagged (st b q)"
    and "game_over b' = game_over b"
    and "\<forall>q. inb b q \<longrightarrow> is_mine (st b' q) \<longrightarrow> is_revealed (st b' q) = is_revealed (st b q)"
    by blast+
qed

lemma step_progress:
  assumes "board_inv b" "is_shuffle shuf" "step shuf b x = Some b'"
  shows "progress b b'"
proof -
  have wf: "wf_board b" using assms(1) by (simp add: board_inv_def)
  show ?thesis
    using assms(3) reveal_facts(1)[OF assms(1,2)] toggle_flag_facts(1)[OF wf]
      hint_reveal_facts(1)[OF assms(1,2)]
    by (cases x) auto
qed

lemma run_progress:
  assumes "board_inv b" "is_shuffle shuf" "run shuf b xs = Some b'"
  shows "progress b b'"
  using assms(1,3)
proof (induction xs arbitrary: b)
  case Nil
  then show ?case by (simp add: progress_refl)
next
  case (Cons x xs)
  from inv_step[OF Cons.prems(1) assms(2), of x] obtain b1 where
    b1: "step shuf b x = Some b1" "board_inv b1" by blast
  then have "run shuf b1 xs = Some b'" using Cons.prems(2) by simp
  from Cons.IH[OF b1(2) this] step_progress[OF Cons.prems(1) assms(2) b1(1)]
  show ?case by (rule progress_trans[rotated])
qed

lemma reachable:
  assumes "is_shuffle shuf" "run shuf (new_board cs rs m) xs = Some b"
  shows "board_inv b" "cols b = cs" "rows b = rs" "num_mines b = m"
proof -
  show "board_inv b" using reachable_inv[OF assms(1), of cs rs m xs] assms(2) by simp
  have "progress (new_board cs rs m) b"
    using run_progress[OF inv_new_board assms] .
  from progress_scalars(1,2)[OF this] show "cols b = cs" "rows b = rs" "num_mines b = m"
    by (simp_all add: same_shape_def new_board_def)
qed

section \<open>The claims\<close>

lemma is_shuffle_no_shuffle: "is_shuffle no_shuffle"
  by (simp add: is_shuffle_def no_shuffle_def)

text \<open>
  C9. For a shuffle that permutes the pool, no list of calls on a new board raises, and in
  the board it reaches no call of \<^verbatim>\<open>reveal\<close>, \<^verbatim>\<open>toggle_flag\<close> or \<^verbatim>\<open>hint_reveal\<close> raises, for
  any integer arguments (the flood fill is a total function: its loop ends). Out of bounds,
  \<^verbatim>\<open>reveal\<close> and \<^verbatim>\<open>toggle_flag\<close> return the board unchanged, and \<^verbatim>\<open>hint_reveal\<close> returns the
  board unchanged when its pool of safe cells is empty.
\<close>

theorem calls_are_total:
  assumes "is_shuffle shuf"
  shows "\<exists>b. run shuf (new_board cs rs m) ops = Some b \<and>
           (\<forall>c r pick.
              (\<exists>b'. reveal shuf b c r = Some b') \<and>
              (\<exists>b'. toggle_flag b c r = Some b') \<and>
              (\<exists>b'. hint_reveal shuf pick b = Some b') \<and>
              (\<not> is_inbounds b c r \<longrightarrow> reveal shuf b c r = Some b \<and> toggle_flag b c r = Some b) \<and>
              (filter (\<lambda>x. \<not> is_mine (state x) \<and> \<not> is_revealed (state x) \<and> \<not> is_flagged (state x))
                 (cells b) = [] \<longrightarrow> hint_reveal shuf pick b = Some b))"
proof -
  from reachable_inv[OF assms, of cs rs m ops] obtain b where
    b: "run shuf (new_board cs rs m) ops = Some b" "board_inv b" by blast
  have "\<exists>b'. reveal shuf b c r = Some b'" for c r
    using inv_reveal[OF b(2) assms, of c r] by blast
  moreover have "\<exists>b'. toggle_flag b c r = Some b'" for c r
    using inv_toggle_flag[OF b(2), of c r] by blast
  moreover have "\<exists>b'. hint_reveal shuf pick b = Some b'" for pick
    using inv_hint_reveal[OF b(2) assms, of pick] by blast
  moreover have "reveal shuf b c r = Some b \<and> toggle_flag b c r = Some b" if "\<not> is_inbounds b c r" for c r
    using that by (simp add: reveal_def toggle_flag_def)
  moreover have "hint_reveal shuf pick b = Some b"
    if "filter (\<lambda>x. \<not> is_mine (state x) \<and> \<not> is_revealed (state x) \<and> \<not> is_flagged (state x)) (cells b) = []"
    for pick
    using that by (simp add: hint_reveal_def)
  ultimately show ?thesis using b(1) by blast
qed

theorem calls_are_total_witness:
  "is_shuffle no_shuffle \<and>
   run no_shuffle (new_board 4 1 1) [Reveal 9 9, ToggleFlag (- 1) 0, HintReveal 0] = Some (new_board 4 1 1)"
proof -
  let ?b = "new_board 4 1 1"
  from calls_are_total[OF is_shuffle_no_shuffle, of 4 1 1 "[]"]
  have "\<not> is_inbounds ?b 9 9 \<longrightarrow> reveal no_shuffle ?b 9 9 = Some ?b"
    and "\<not> is_inbounds ?b (- 1) 0 \<longrightarrow> toggle_flag ?b (- 1) 0 = Some ?b"
    by auto
  moreover have "\<not> is_inbounds ?b 9 9" "\<not> is_inbounds ?b (- 1) 0"
    by (simp_all add: is_inbounds_def new_board_def)
  moreover have "hint_reveal no_shuffle 0 ?b = Some ?b"
    by (simp add: hint_reveal_def new_board_def)
  ultimately show ?thesis by (simp add: is_shuffle_no_shuffle)
qed

text \<open>
  C8. In a board that a list of calls reaches, \<^verbatim>\<open>reveal\<close> on an in-bounds cell that is
  revealed and is not a mine returns the board as it is, \<open>revealed_count\<close> included.
\<close>

theorem reveal_again_is_noop:
  assumes "is_shuffle shuf" and "run shuf (new_board cs rs m) ops = Some b"
    and "is_inbounds b c r" and "is_revealed (st b (c, r))" and "\<not> is_mine (st b (c, r))"
  shows "reveal shuf b c r = Some b"
proof -
  have inv: "board_inv b" using reachable(1)[OF assms(1,2)] .
  have p: "inb b (c, r)" using assms(3) by (simp add: inb_def)
  have "mines_placed b"
  proof (rule ccontr)
    assume "\<not> mines_placed b"
    then have "fresh b" using inv by (simp add: board_inv_def)
    then show False using p assms(4) unfolding fresh_def by blast
  qed
  moreover have "wf_board b" using inv by (simp add: board_inv_def)
  ultimately show ?thesis
    using reveal_placed[of b "(c, r)" shuf] p assms(4) by (simp add: hidden_def)
qed

lemma run_row4_opened: "run no_shuffle (new_board 4 1 1) [Reveal 0 0] = Some row4_opened"
  by code_simp

theorem reveal_again_is_noop_witness:
  "is_shuffle no_shuffle \<and> run no_shuffle (new_board 4 1 1) [Reveal 0 0] = Some row4_opened \<and>
   is_inbounds row4_opened 1 0 \<and> is_revealed (st row4_opened (1, 0)) \<and>
   \<not> is_mine (st row4_opened (1, 0)) \<and> reveal no_shuffle row4_opened 1 0 = Some row4_opened"
proof -
  have h: "is_inbounds row4_opened 1 0" "is_revealed (st row4_opened (1, 0))"
    "\<not> is_mine (st row4_opened (1, 0))"
    by code_simp+
  from reveal_again_is_noop[OF is_shuffle_no_shuffle run_row4_opened h]
  show ?thesis using h is_shuffle_no_shuffle run_row4_opened by blast
qed

lemma run_inv_result:
  assumes "board_inv b" "is_shuffle shuf" "run shuf b xs = Some b'"
  shows "board_inv b'"
  using inv_run[OF assms(1,2), of xs] assms(3) by simp

lemma reveal_inv_result:
  assumes "board_inv b" "is_shuffle shuf" "reveal shuf b c r = Some b'"
  shows "board_inv b'"
  using inv_reveal[OF assms(1,2), of c r] assms(3) by simp

lemma inv_mines_placed:
  assumes "board_inv b" "inb b p" "is_mine (st b p) \<or> is_revealed (st b p)"
  shows "mines_placed b"
proof (rule ccontr)
  assume "\<not> mines_placed b"
  then have "fresh b" using assms(1) by (simp add: board_inv_def)
  then show False using assms(2,3) unfolding fresh_def by blast
qed

lemma run_row4_lost: "run no_shuffle (new_board 4 1 1) [Reveal 0 0, Reveal 2 0] = Some row4_lost"
  by code_simp

text \<open>What a loss keeps: when a reveal hits a mine (an in-bounds cell that is a mine, neither
  revealed nor flagged), \<open>game_over\<close> is true and every mine is revealed afterwards; both stay
  so after every further list of calls, and every further \<^verbatim>\<open>hint_reveal\<close> returns the board
  unchanged.\<close>

theorem loss_is_final:
  assumes "is_shuffle shuf" and "run shuf (new_board cs rs m) ops = Some b"
    and "is_inbounds b c r" and "hidden b (c, r)" and "is_mine (st b (c, r))"
  shows "\<exists>b'. reveal shuf b c r = Some b' \<and> game_over b' \<and>
           (\<forall>x\<in>set (cells b'). is_mine (state x) \<longrightarrow> is_revealed (state x)) \<and>
           (\<forall>ops' b''. run shuf b' ops' = Some b'' \<longrightarrow>
              game_over b'' \<and>
              (\<forall>x\<in>set (cells b''). is_mine (state x) \<longrightarrow> is_revealed (state x)) \<and>
              (\<forall>pick. hint_reveal shuf pick b'' = Some b''))"
proof -
  have inv: "board_inv b" using reachable(1)[OF assms(1,2)] .
  have p: "inb b (c, r)" using assms(3) by (simp add: inb_def)
  have mp: "mines_placed b" using inv_mines_placed[OF inv p] assms(5) by simp
  from inv_reveal[OF inv assms(1), of c r] obtain b' where
    b': "reveal shuf b c r = Some b'" "board_inv b'" by blast
  have go: "game_over b'" using reveal_placed_facts(3)[OF inv mp b'(1)] assms(3-5) by simp
  have shown: "\<forall>x\<in>set (cells a). is_mine (state x) \<longrightarrow> is_revealed (state x)"
    if "board_inv a" "game_over a" for a
  proof -
    have "wf_board a" "mines_shown a" using that by (simp_all add: board_inv_def)
    then show ?thesis
      unfolding mines_shown_def st_def
      using cells_forall[of a "\<lambda>x. is_mine (state x) \<longrightarrow> is_revealed (state x)"] by simp
  qed
  have later: "game_over b'' \<and>
              (\<forall>x\<in>set (cells b''). is_mine (state x) \<longrightarrow> is_revealed (state x)) \<and>
              (\<forall>pick. hint_reveal shuf pick b'' = Some b'')"
    if "run shuf b' ops' = Some b''" for ops' b''
  proof -
    have i: "board_inv b''" using run_inv_result[OF b'(2) assms(1) that] .
    have g: "game_over b''"
      using progress_scalars(4)[OF run_progress[OF b'(2) assms(1) that] go] .
    then have "hint_reveal shuf pick b'' = Some b''" for pick
      by (simp add: hint_reveal_def)
    then show ?thesis using g shown[OF i g] by blast
  qed
  show ?thesis using b'(1) go shown[OF b'(2) go] later by blast
qed

theorem loss_is_final_witness:
  "is_shuffle no_shuffle \<and> run no_shuffle (new_board 4 1 1) [Reveal 0 0] = Some row4_opened \<and>
   is_inbounds row4_opened 2 0 \<and> hidden row4_opened (2, 0) \<and> is_mine (st row4_opened (2, 0)) \<and>
   reveal no_shuffle row4_opened 2 0 = Some row4_lost \<and> game_over row4_lost \<and>
   hint_reveal no_shuffle 0 row4_lost = Some row4_lost"
proof -
  have h: "is_inbounds row4_opened 2 0" "hidden row4_opened (2, 0)" "is_mine (st row4_opened (2, 0))"
    by code_simp+
  have r: "reveal no_shuffle row4_opened 2 0 = Some row4_lost" by code_simp
  have e: "run no_shuffle row4_lost [] = Some row4_lost" by simp
  from loss_is_final[OF is_shuffle_no_shuffle run_row4_opened h] r e
  have "game_over row4_lost \<and> hint_reveal no_shuffle 0 row4_lost = Some row4_lost"
    by (metis option.inject)
  then show ?thesis using h r is_shuffle_no_shuffle run_row4_opened by blast
qed

text \<open>
  C2. Once a reveal has hit a mine, every further \<^verbatim>\<open>reveal\<close>, \<^verbatim>\<open>toggle_flag\<close> and
  \<^verbatim>\<open>hint_reveal\<close> should leave the board as it is. \<^verbatim>\<open>hint_reveal\<close> returns at once when
  \<open>game_over\<close> or \<open>win\<close> is true; \<^verbatim>\<open>reveal\<close> and \<^verbatim>\<open>toggle_flag\<close> have no such test, and the
  code breaks the claim: on the board of four cells in one row with one mine, after
  \<^verbatim>\<open>reveal(0, 0)\<close> and the \<^verbatim>\<open>reveal(2, 0)\<close> that hits the mine, \<^verbatim>\<open>reveal(3, 0)\<close> reveals the
  cell and raises \<open>revealed_count\<close> from 2 to 3, and \<^verbatim>\<open>toggle_flag(3, 0)\<close> sets the flag.
\<close>

theorem reveal_after_loss:
  "run no_shuffle (new_board 4 1 1) [Reveal 0 0] = Some row4_opened \<and>
   is_mine (st row4_opened (2, 0)) \<and>
   reveal no_shuffle row4_opened 2 0 = Some row4_lost \<and> game_over row4_lost \<and>
   revealed_count row4_lost = 2 \<and>
   map_option revealed_count (reveal no_shuffle row4_lost 3 0) = Some 3 \<and>
   map_option (\<lambda>b. is_revealed (st b (3, 0))) (reveal no_shuffle row4_lost 3 0) = Some True \<and>
   \<not> is_revealed (st row4_lost (3, 0)) \<and>
   map_option (\<lambda>b. is_flagged (st b (3, 0))) (toggle_flag row4_lost 3 0) = Some True \<and>
   \<not> is_flagged (st row4_lost (3, 0)) \<and>
   reveal no_shuffle row4_lost 3 0 \<noteq> Some row4_lost \<and>
   toggle_flag row4_lost 3 0 \<noteq> Some row4_lost"
proof -
  have "is_mine (st row4_opened (2, 0))" "reveal no_shuffle row4_opened 2 0 = Some row4_lost"
    "game_over row4_lost" "revealed_count row4_lost = 2"
    "map_option revealed_count (reveal no_shuffle row4_lost 3 0) = Some 3"
    "map_option (\<lambda>b. is_revealed (st b (3, 0))) (reveal no_shuffle row4_lost 3 0) = Some True"
    "\<not> is_revealed (st row4_lost (3, 0))"
    "map_option (\<lambda>b. is_flagged (st b (3, 0))) (toggle_flag row4_lost 3 0) = Some True"
    "\<not> is_flagged (st row4_lost (3, 0))"
    "reveal no_shuffle row4_lost 3 0 \<noteq> Some row4_lost"
    "toggle_flag row4_lost 3 0 \<noteq> Some row4_lost"
    by code_simp+
  then show ?thesis using run_row4_opened by simp
qed

text \<open>What the two final flags keep: both are false in a new board; in every board that
  a list of calls reaches, and after every further list of calls, a flag that is true stays
  true, and \<open>win\<close> does not change once \<open>game_over\<close> is true.\<close>

theorem final_flags:
  assumes "is_shuffle shuf" and "run shuf (new_board cs rs m) ops = Some b"
    and "run shuf b ops' = Some b'"
  shows "\<not> game_over (new_board cs rs m) \<and> \<not> win (new_board cs rs m) \<and>
         (game_over b \<longrightarrow> game_over b') \<and> (win b \<longrightarrow> win b') \<and>
         (game_over b \<longrightarrow> win b' = win b)"
proof -
  have inv: "board_inv b" using reachable(1)[OF assms(1,2)] .
  note p = progress_scalars[OF run_progress[OF inv assms(1,3)]]
  show ?thesis using p(4,5,6) by (auto simp: new_board_def)
qed

lemma run_row4_won: "run no_shuffle (new_board 4 1 1) [Reveal 0 0, Reveal 3 0] = Some row4_won"
  by code_simp

theorem final_flags_witness:
  "is_shuffle no_shuffle \<and>
   run no_shuffle (new_board 4 1 1) [Reveal 0 0, Reveal 3 0] = Some row4_won \<and>
   run no_shuffle row4_won [Reveal 2 0, ToggleFlag 0 0] = Some row4_won_lost \<and>
   win row4_won \<and> win row4_won_lost \<and>
   run no_shuffle row4_lost [Reveal 3 0] = Some (row4_lost\<lparr>cells := cells row4_won_lost, revealed_count := 3\<rparr>) \<and>
   game_over row4_lost \<and> game_over (row4_lost\<lparr>cells := cells row4_won_lost, revealed_count := 3\<rparr>) \<and>
   win (row4_lost\<lparr>cells := cells row4_won_lost, revealed_count := 3\<rparr>) = win row4_lost"
proof -
  have r: "run no_shuffle row4_won [Reveal 2 0, ToggleFlag 0 0] = Some row4_won_lost"
    "run no_shuffle row4_lost [Reveal 3 0] = Some (row4_lost\<lparr>cells := cells row4_won_lost, revealed_count := 3\<rparr>)"
    by code_simp+
  have h: "win row4_won" "game_over row4_lost" by code_simp+
  from final_flags[OF is_shuffle_no_shuffle run_row4_won r(1)] h(1)
  have 1: "win row4_won_lost" by blast
  from final_flags[OF is_shuffle_no_shuffle run_row4_lost r(2)] h(2)
  have 2: "game_over (row4_lost\<lparr>cells := cells row4_won_lost, revealed_count := 3\<rparr>)"
    "win (row4_lost\<lparr>cells := cells row4_won_lost, revealed_count := 3\<rparr>) = win row4_lost"
    by blast+
  show ?thesis using 1 2 r h is_shuffle_no_shuffle run_row4_won by blast
qed

text \<open>
  C4. At most one of \<open>game_over\<close> and \<open>win\<close> should ever become true. \<^verbatim>\<open>_check_win\<close> sets
  \<open>win\<close> only when \<open>game_over\<close> is false, and \<^verbatim>\<open>hint_reveal\<close> returns at once when either
  flag is true; the mine branch of \<^verbatim>\<open>reveal\<close> sets \<open>game_over\<close> without a test of \<open>win\<close>, and
  the code breaks the claim: on the board of four cells in one row with one mine, after
  \<^verbatim>\<open>reveal(0, 0)\<close> and the \<^verbatim>\<open>reveal(3, 0)\<close> that wins, \<^verbatim>\<open>reveal(2, 0)\<close> hits the mine and both
  flags are true.
\<close>

theorem loss_after_win:
  "run no_shuffle (new_board 4 1 1) [Reveal 0 0, Reveal 3 0] = Some row4_won \<and>
   win row4_won \<and> \<not> game_over row4_won \<and>
   reveal no_shuffle row4_won 2 0 = Some row4_won_lost \<and>
   win row4_won_lost \<and> game_over row4_won_lost"
proof -
  have "win row4_won" "\<not> game_over row4_won" "reveal no_shuffle row4_won 2 0 = Some row4_won_lost"
    "win row4_won_lost" "game_over row4_won_lost"
    by code_simp+
  then show ?thesis using run_row4_won by simp
qed

text \<open>
  C10. In every board that a list of calls reaches, a \<^verbatim>\<open>reveal\<close> whose in-bounds target is
  not a mine (in the board it returns, which holds the mines that a first reveal places), and every
  \<^verbatim>\<open>hint_reveal\<close>, leaves \<open>game_over\<close> as it was, false if it was false, and leaves
  \<open>is_revealed\<close> of every mine as it was.
\<close>

theorem safe_reveal_shows_no_mine:
  assumes "is_shuffle shuf" and "run shuf (new_board cs rs m) ops = Some b"
  shows "(reveal shuf b c r = Some b' \<and> is_inbounds b c r \<and> \<not> is_mine (st b' (c, r)) \<longrightarrow>
            game_over b' = game_over b \<and>
            (\<forall>q. inb b q \<longrightarrow> is_mine (st b' q) \<longrightarrow> is_revealed (st b' q) = is_revealed (st b q))) \<and>
         (hint_reveal shuf pick b = Some b'' \<longrightarrow>
            game_over b'' = game_over b \<and>
            (\<forall>q. inb b q \<longrightarrow> is_mine (st b'' q) \<longrightarrow> is_revealed (st b'' q) = is_revealed (st b q)))"
proof -
  have inv: "board_inv b" using reachable(1)[OF assms] .
  have 1: "game_over b' = game_over b \<and>
            (\<forall>q. inb b q \<longrightarrow> is_mine (st b' q) \<longrightarrow> is_revealed (st b' q) = is_revealed (st b q))"
    if "reveal shuf b c r = Some b'" "is_inbounds b c r" "\<not> is_mine (st b' (c, r))"
    using reveal_facts(3)[OF inv assms(1) that(1)] that(3) by blast
  have 2: "game_over b'' = game_over b \<and>
            (\<forall>q. inb b q \<longrightarrow> is_mine (st b'' q) \<longrightarrow> is_revealed (st b'' q) = is_revealed (st b q))"
    if "hint_reveal shuf pick b = Some b''"
    using hint_reveal_facts(3,4)[OF inv assms(1) that] by blast
  show ?thesis using 1 2 by blast
qed

theorem safe_reveal_shows_no_mine_witness:
  "is_shuffle no_shuffle \<and> run no_shuffle (new_board 4 1 1) [Reveal 0 0] = Some row4_opened \<and>
   reveal no_shuffle row4_opened 3 0 = Some row4_won \<and> is_inbounds row4_opened 3 0 \<and>
   \<not> is_mine (st row4_won (3, 0)) \<and> hint_reveal no_shuffle 0 row4_opened = Some row4_won \<and>
   game_over row4_won = game_over row4_opened \<and> inb row4_opened (2, 0) \<and>
   is_mine (st row4_won (2, 0)) \<and>
   is_revealed (st row4_won (2, 0)) = is_revealed (st row4_opened (2, 0))"
proof -
  have h: "reveal no_shuffle row4_opened 3 0 = Some row4_won" "\<not> is_mine (st row4_won (3, 0))"
    "hint_reveal no_shuffle 0 row4_opened = Some row4_won" "inb row4_opened (2, 0)"
    "is_mine (st row4_won (2, 0))" "is_inbounds row4_opened 3 0"
    by code_simp+
  from safe_reveal_shows_no_mine[OF is_shuffle_no_shuffle run_row4_opened,
      of 3 0 row4_won 0 row4_won] h
  have "game_over row4_won = game_over row4_opened \<and>
        is_revealed (st row4_won (2, 0)) = is_revealed (st row4_opened (2, 0))"
    by blast
  then show ?thesis using h is_shuffle_no_shuffle run_row4_opened by blast
qed

section \<open>The claims on mine placement\<close>

lemma pool_size_pool: "pool_size b c r = int (length (pool b c r))"
  by (simp add: pool_size_def pool_def)

lemma distinct_neighbors: "distinct (neighbors b c r)"
proof -
  have "distinct (map (\<lambda>d. (c + fst d, r + snd d)) deltas)"
    by (simp add: deltas_def)
  then show ?thesis unfolding neighbors_def by (rule distinct_filter)
qed

text \<open>\<^verbatim>\<open>neighbors\<close> returns the in-bounds positions of the Moore neighborhood.\<close>

lemma abs_le_one_int: "\<bar>a::int\<bar> \<le> 1 \<longleftrightarrow> a = - 1 \<or> a = 0 \<or> a = 1"
  by arith

lemma deltas_moore: "(a, b) \<in> set deltas \<longleftrightarrow> (a, b) \<noteq> (0, 0) \<and> \<bar>a\<bar> \<le> 1 \<and> \<bar>b\<bar> \<le> 1"
  unfolding abs_le_one_int by (auto simp: deltas_def)

lemma neighbors_moore:
  "set (neighbors b c r) = {q. inb b q \<and> q \<noteq> (c, r) \<and> \<bar>fst q - c\<bar> \<le> 1 \<and> \<bar>snd q - r\<bar> \<le> 1}"
proof (rule set_eqI)
  fix q :: "int \<times> int"
  obtain x y where q: "q = (x, y)" by (cases q)
  have "(x, y) \<in> set (map (\<lambda>d. (c + fst d, r + snd d)) deltas) \<longleftrightarrow> (x - c, y - r) \<in> set deltas"
  proof
    assume "(x, y) \<in> set (map (\<lambda>d. (c + fst d, r + snd d)) deltas)"
    then obtain d where d: "d \<in> set deltas" "x = c + fst d" "y = r + snd d" by auto
    then have "(x - c, y - r) = d" by simp
    then show "(x - c, y - r) \<in> set deltas" using d(1) by simp
  next
    assume "(x - c, y - r) \<in> set deltas"
    then have "(\<lambda>d. (c + fst d, r + snd d)) (x - c, y - r) \<in> (\<lambda>d. (c + fst d, r + snd d)) ` set deltas"
      by (rule imageI)
    then show "(x, y) \<in> set (map (\<lambda>d. (c + fst d, r + snd d)) deltas)" by simp
  qed
  also have "\<dots> \<longleftrightarrow> (x, y) \<noteq> (c, r) \<and> \<bar>x - c\<bar> \<le> 1 \<and> \<bar>y - r\<bar> \<le> 1"
    unfolding deltas_moore by auto
  finally show "q \<in> set (neighbors b c r) \<longleftrightarrow>
        q \<in> {q. inb b q \<and> q \<noteq> (c, r) \<and> \<bar>fst q - c\<bar> \<le> 1 \<and> \<bar>snd q - r\<bar> \<le> 1}"
    unfolding neighbors_def q by (auto simp: inb_def)
qed

lemma pool_size_closed_form:
  assumes "is_inbounds b c r"
  shows "pool_size b c r = cols b * rows b - (1 + int (length (neighbors b c r)))"
proof -
  let ?F = "set ((c, r) # neighbors b c r)" and ?A = "all_positions (cols b) (rows b)"
  have sub: "?F \<subseteq> set ?A"
    using assms by (auto simp: set_all_positions_inb inb_def dest: neighbors_inb)
  have cardF: "card ?F = 1 + length (neighbors b c r)"
    using distinct_card[of "(c, r) # neighbors b c r"] distinct_neighbors[of b c r]
      not_self_neighbor[of c r b] by simp
  have "length (filter (\<lambda>p. p \<notin> ?F) ?A) = card ({p. p \<notin> ?F} \<inter> set ?A)"
    by (rule distinct_length_filter[OF distinct_all_positions])
  also have "{p. p \<notin> ?F} \<inter> set ?A = set ?A - ?F" by auto
  also have "card (set ?A - ?F) = card (set ?A) - card ?F"
    using sub by (intro card_Diff_subset) auto
  also have "card (set ?A) = nat (cols b) * nat (rows b)"
    using distinct_card[OF distinct_all_positions, of "cols b" "rows b"]
    by (simp add: length_all_positions)
  finally have len: "length (pool b c r) = nat (cols b) * nat (rows b) - card ?F"
    by (simp add: pool_def)
  have "card ?F \<le> card (set ?A)" using sub by (intro card_mono) auto
  then have "card ?F \<le> nat (cols b) * nat (rows b)"
    using distinct_card[OF distinct_all_positions, of "cols b" "rows b"]
    by (simp add: length_all_positions)
  moreover have "int (nat (cols b) * nat (rows b)) = cols b * rows b"
    using assms by (simp add: is_inbounds_def)
  ultimately show ?thesis
    using len cardF by (simp add: pool_size_pool of_nat_diff)
qed

lemma card_drawn:
  assumes "is_shuffle shuf" "0 \<le> num_mines b"
  shows "int (card (drawn shuf b c r)) = min (num_mines b) (pool_size b c r)"
proof -
  let ?xs = "shuf (pool b c r)"
  have "distinct (pool b c r)" unfolding pool_def using distinct_all_positions by (rule distinct_filter)
  then have d: "distinct ?xs" using is_shuffle_facts(3)[OF assms(1)] by simp
  have "card (drawn shuf b c r) = length (take (nat (num_mines b)) ?xs)"
    unfolding drawn_def py_take_def using assms(2) d by (simp add: distinct_card)
  also have "\<dots> = min (length (pool b c r)) (nat (num_mines b))"
    using is_shuffle_facts(2)[OF assms(1)] by simp
  finally have c: "card (drawn shuf b c r) = min (length (pool b c r)) (nat (num_mines b))" .
  show ?thesis
  proof (cases "length (pool b c r) \<le> nat (num_mines b)")
    case True
    then have "int (length (pool b c r)) \<le> num_mines b" using assms(2) by linarith
    then show ?thesis using c True by (simp add: pool_size_pool)
  next
    case False
    then have "num_mines b \<le> int (length (pool b c r))" using assms(2) by linarith
    then show ?thesis using c False assms(2) by (simp add: pool_size_pool)
  qed
qed

lemma count_mines_placed:
  assumes wf: "wf_board b" and wf': "wf_board b'" and sh: "same_shape b b'"
    and M: "M \<subseteq> {p. inb b p}" and m: "\<And>q. inb b q \<Longrightarrow> is_mine (st b' q) = (q \<in> M)"
  shows "count_cells is_mine b' = int (card M)"
proof -
  let ?A = "all_positions (cols b) (rows b)"
  have "filter (\<lambda>p. is_mine (st b' p)) ?A = filter (\<lambda>p. p \<in> M) ?A"
    by (rule filter_cong[OF refl]) (simp add: set_all_positions_inb m)
  moreover have "length (filter (\<lambda>p. p \<in> M) ?A) = card ({p. p \<in> M} \<inter> set ?A)"
    by (rule distinct_length_filter[OF distinct_all_positions])
  moreover have "{p. p \<in> M} \<inter> set ?A = M" using M by (auto simp: set_all_positions_inb)
  ultimately show ?thesis
    using sh by (simp add: count_cells_pos[OF wf'] same_shape_def)
qed

lemma adj_ok_exact:
  assumes "wf_board b" "adj_ok b"
  shows "adjacent_exact b"
proof -
  have "adjacent (state x) = mine_neighbors b (col x, row x) \<and>
        0 \<le> adjacent (state x) \<and> adjacent (state x) \<le> 8"
    if "x \<in> set (cells b)" "\<not> is_mine (state x)" for x
  proof -
    note cp = cell_position[OF assms(1) that(1)]
    have "st b (col x, row x) = state x" using cp(2) by (simp add: st_def)
    then have a: "adjacent (state x) = mine_neighbors b (col x, row x)"
      using assms(2) cp(1) that(2) unfolding adj_ok_def by metis
    have "mine_neighbors b (col x, row x) \<le> int (length (neighbors b (col x) (row x)))"
      unfolding mine_neighbors_def by simp
    also have "\<dots> \<le> 8" using length_neighbors[of b "col x" "row x"] by simp
    finally have "mine_neighbors b (col x, row x) \<le> 8" .
    moreover have "0 \<le> mine_neighbors b (col x, row x)" by (simp add: mine_neighbors_def)
    ultimately show ?thesis using a by simp
  qed
  then show ?thesis unfolding adjacent_exact_def by blast
qed

text \<open>
  C5. In a board that a list of calls reaches and in which the mines are not placed, with
  \<open>num_mines \<ge> 0\<close> (the constructor takes a number of mines), \<^verbatim>\<open>place_mines\<close> on an in-bounds
  safe cell returns a board in which exactly \<open>min num_mines pool_size\<close> cells are mines,
  and neither the safe cell nor any of its neighbors is a mine; the same holds in the board
  that the first in-bounds \<^verbatim>\<open>reveal\<close>, which calls \<^verbatim>\<open>place_mines\<close>, returns. The pool
  holds all the grid positions but the safe cell and its neighbors.
\<close>

theorem placement_count:
  assumes "is_shuffle shuf" and "run shuf (new_board cs rs m) ops = Some b"
    and "\<not> mines_placed b" and "is_inbounds b c r" and "0 \<le> m"
  shows "\<exists>b'. place_mines shuf b c r = Some b' \<and>
           count_cells is_mine b' = min m (pool_size b c r) \<and>
           (\<forall>p\<in>set ((c, r) # neighbors b c r). \<not> is_mine (st b' p)) \<and>
           (\<exists>b''. reveal shuf b c r = Some b'' \<and>
              count_cells is_mine b'' = min m (pool_size b c r) \<and>
              (\<forall>p\<in>set ((c, r) # neighbors b c r). \<not> is_mine (st b'' p))) \<and>
           pool_size b c r = cols b * rows b - (1 + int (length (neighbors b c r)))"
proof -
  have inv: "board_inv b" and nm: "num_mines b = m" using reachable(1,4)[OF assms(1,2)] by auto
  have wf: "wf_board b" using inv by (simp add: board_inv_def)
  from inv_place_mines[OF inv assms(3,1), of c r] obtain b' where
    b': "place_mines shuf b c r = Some b'" "board_inv b'" "mines_placed b'" "same_shape b b'"
    and cw: "\<forall>q. inb b q \<longrightarrow>
          is_mine (st b' q) = (q \<in> drawn shuf b c r) \<and> \<not> is_revealed (st b' q) \<and>
          is_flagged (st b' q) = is_flagged (st b q)"
    by blast
  have wf': "wf_board b'" using b'(2) by (simp add: board_inv_def)
  have g: "inb b' = inb b" using b'(4) by (simp add: same_shape_geom)
  have M: "drawn shuf b c r \<subseteq> {p. inb b p}" using drawn_safe(1)[OF assms(1)] by blast
  have mine': "is_mine (st b' q) = (q \<in> drawn shuf b c r)" if "inb b q" for q
    using cw that by blast
  have card: "int (card (drawn shuf b c r)) = min m (pool_size b c r)"
    using card_drawn[OF assms(1), of b c r] assms(5) nm by simp
  have forb: "inb b p \<and> p \<notin> drawn shuf b c r" if "p \<in> set ((c, r) # neighbors b c r)" for p
    using that assms(4) drawn_safe(2,3)[OF assms(1), of p b c r]
    by (auto simp: inb_def dest: neighbors_inb)
  have 1: "count_cells is_mine b' = min m (pool_size b c r)"
    using count_mines_placed[OF wf wf' b'(4) M mine'] card by simp
  have 2: "\<forall>p\<in>set ((c, r) # neighbors b c r). \<not> is_mine (st b' p)"
    using forb mine' by blast
  from inv_reveal[OF inv assms(1), of c r] obtain b'' where
    b'': "reveal shuf b c r = Some b''" "board_inv b''" by blast
  have rv: "reveal shuf b' c r = Some b''"
    using reveal_first[OF assms(3,4) b'(1,3,4)] b''(1) by simp
  have pr: "progress b' b''" using reveal_placed_facts(1)[OF b'(2,3) rv] .
  have wf'': "wf_board b''" using b''(2) by (simp add: board_inv_def)
  have sh'': "same_shape b b''"
    using progress_scalars(1)[OF pr] b'(4) by (simp add: same_shape_def)
  have mine'': "is_mine (st b'' q) = (q \<in> drawn shuf b c r)" if "inb b q" for q
    using progress_mine[OF pr b'(3), of q] mine'[OF that] that g by simp
  have 3: "count_cells is_mine b'' = min m (pool_size b c r)"
    using count_mines_placed[OF wf wf'' sh'' M mine''] card by simp
  have 4: "\<forall>p\<in>set ((c, r) # neighbors b c r). \<not> is_mine (st b'' p)"
    using forb mine'' by blast
  note 5 = pool_size_closed_form[OF assms(4)]
  show ?thesis using b'(1) 1 2 b''(1) 3 4 5 by blast
qed

lemma place_row4: "place_mines no_shuffle (new_board 4 1 1) 0 0 = Some row4_placed"
  by code_simp

theorem placement_count_witness:
  "is_shuffle no_shuffle \<and> run no_shuffle (new_board 4 1 1) [] = Some (new_board 4 1 1) \<and>
   \<not> mines_placed (new_board 4 1 1) \<and> is_inbounds (new_board 4 1 1) 0 0 \<and> (0::int) \<le> 1 \<and>
   place_mines no_shuffle (new_board 4 1 1) 0 0 = Some row4_placed \<and>
   pool_size (new_board 4 1 1) 0 0 = 2 \<and> count_cells is_mine row4_placed = 1 \<and>
   \<not> is_mine (st row4_placed (0, 0)) \<and> \<not> is_mine (st row4_placed (1, 0))"
proof -
  have h: "run no_shuffle (new_board 4 1 1) [] = Some (new_board 4 1 1)"
    "\<not> mines_placed (new_board 4 1 1)" "is_inbounds (new_board 4 1 1) 0 0" "(0::int) \<le> 1"
    by (simp_all add: new_board_def is_inbounds_def)
  have p: "pool_size (new_board 4 1 1) 0 0 = 2" by code_simp
  have n: "(0, 0) \<in> set ((0, 0) # neighbors (new_board 4 1 1) 0 0)"
    "(1, 0) \<in> set ((0, 0) # neighbors (new_board 4 1 1) 0 0)"
    by code_simp+
  from placement_count[OF is_shuffle_no_shuffle h] place_row4
  have "count_cells is_mine row4_placed = min 1 (pool_size (new_board 4 1 1) 0 0)"
    and "\<forall>p\<in>set ((0, 0) # neighbors (new_board 4 1 1) 0 0). \<not> is_mine (st row4_placed p)"
    by auto
  then have "count_cells is_mine row4_placed = 1" "\<not> is_mine (st row4_placed (0, 0))"
    "\<not> is_mine (st row4_placed (1, 0))"
    using p n by auto
  then show ?thesis using h p place_row4 is_shuffle_no_shuffle by blast
qed

text \<open>
  C6. The board that \<^verbatim>\<open>place_mines\<close> returns, and every board that a list of calls reaches
  once the mines are placed, gives each cell that is not a mine an \<open>adjacent\<close> field equal
  to the number of mines among its neighbors, from 0 to 8; the neighbors of a position are
  the in-bounds positions of its Moore neighborhood, each once.
\<close>

theorem placement_adjacency:
  assumes "is_shuffle shuf" and "run shuf (new_board cs rs m) ops = Some b"
  shows "(\<not> mines_placed b \<longrightarrow> (\<exists>b'. place_mines shuf b c r = Some b' \<and> adjacent_exact b')) \<and>
         (mines_placed b \<longrightarrow> adjacent_exact b) \<and>
         distinct (neighbors b c r) \<and>
         set (neighbors b c r) =
           {q. inb b q \<and> q \<noteq> (c, r) \<and> \<bar>fst q - c\<bar> \<le> 1 \<and> \<bar>snd q - r\<bar> \<le> 1}"
proof -
  have inv: "board_inv b" using reachable(1)[OF assms] .
  have 1: "\<exists>b'. place_mines shuf b c r = Some b' \<and> adjacent_exact b'" if "\<not> mines_placed b"
  proof -
    from inv_place_mines[OF inv that assms(1), of c r] obtain b' where
      b': "place_mines shuf b c r = Some b'" "board_inv b'" "mines_placed b'" by blast
    then have "adjacent_exact b'" by (intro adj_ok_exact) (simp_all add: board_inv_def)
    then show ?thesis using b'(1) by blast
  qed
  have 2: "adjacent_exact b" if "mines_placed b"
    using inv that by (intro adj_ok_exact) (simp_all add: board_inv_def)
  show ?thesis using 1 2 distinct_neighbors neighbors_moore by blast
qed

theorem placement_adjacency_witness:
  "is_shuffle no_shuffle \<and> run no_shuffle (new_board 4 1 1) [] = Some (new_board 4 1 1) \<and>
   \<not> mines_placed (new_board 4 1 1) \<and>
   place_mines no_shuffle (new_board 4 1 1) 0 0 = Some row4_placed \<and> adjacent_exact row4_placed \<and>
   run no_shuffle (new_board 4 1 1) [Reveal 0 0] = Some row4_opened \<and> mines_placed row4_opened \<and>
   adjacent_exact row4_opened"
proof -
  have h: "run no_shuffle (new_board 4 1 1) [] = Some (new_board 4 1 1)"
    "\<not> mines_placed (new_board 4 1 1)" "mines_placed row4_opened"
    by (simp_all add: new_board_def row4_opened_def)
  from placement_adjacency[OF is_shuffle_no_shuffle h(1), of 0 0] h(2) place_row4
  have 1: "adjacent_exact row4_placed" by auto
  from placement_adjacency[OF is_shuffle_no_shuffle run_row4_opened] h(3)
  have 2: "adjacent_exact row4_opened" by blast
  show ?thesis using 1 2 h place_row4 run_row4_opened is_shuffle_no_shuffle by blast
qed

section \<open>Boards that hold all their mines\<close>

lemma length_filter_mono:
  assumes "\<And>x. P x \<Longrightarrow> Q x"
  shows "length (filter P xs) \<le> length (filter Q xs)"
  using assms by (induction xs) auto

lemma filter_same_length:
  assumes imp: "\<And>x. P x \<Longrightarrow> Q x" and len: "length (filter P xs) = length (filter Q xs)"
    and x: "x \<in> set xs" "Q x"
  shows "P x"
  using len x
proof (induction xs)
  case Nil
  then show ?case by simp
next
  case (Cons y ys)
  have le: "length (filter P ys) \<le> length (filter Q ys)" using imp by (rule length_filter_mono)
  show ?case
  proof (cases "Q y")
    case qy: True
    show ?thesis
    proof (cases "P y")
      case True
      then have "length (filter P ys) = length (filter Q ys)" using Cons.prems(1) qy by simp
      then show ?thesis using Cons.IH Cons.prems(2,3) True by auto
    next
      case False
      then have "length (filter P ys) = Suc (length (filter Q ys))" using Cons.prems(1) qy by simp
      then show ?thesis using le by simp
    qed
  next
    case False
    then have "\<not> P y" using imp by blast
    then have "length (filter P ys) = length (filter Q ys)" using Cons.prems(1) False by simp
    then show ?thesis using Cons.IH Cons.prems(2,3) False by auto
  qed
qed

lemma count_cells_le: "count_cells P b \<le> int (length (cells b))"
  by (simp add: count_cells_def)

lemma count_cells_compl: "count_cells (\<lambda>s. \<not> P s) b = int (length (cells b)) - count_cells P b"
  using sum_length_filter_compl[of "\<lambda>x. P (state x)" "cells b"] by (simp add: count_cells_def)

lemma length_cells:
  assumes "wf_board b" "inb b p"
  shows "int (length (cells b)) = cols b * rows b"
proof -
  have "0 \<le> cols b" "0 \<le> rows b" using assms(2) by (auto simp: inb_def is_inbounds_def)
  then show ?thesis using assms(1) by (simp add: wf_board_def nat_mult_distrib)
qed

text \<open>When the counter reaches the number of safe cells on a board that holds all its
  mines, every safe cell is revealed, and the sweep of the win check changes no cell.\<close>

lemma safe_all_revealed:
  assumes wf: "wf_board b" and p: "inb b p" and ok: "count_ok b" and ex: "holds_all_mines b"
    and cnt: "revealed_count b = cols b * rows b - num_mines b"
    and q: "inb b q" "\<not> is_mine (st b q)"
  shows "is_revealed (st b q)"
proof -
  let ?P = "\<lambda>x. is_revealed (state x) \<and> \<not> is_mine (state x)" and ?Q = "\<lambda>x. \<not> is_mine (state x)"
  have "count_cells (\<lambda>s. \<not> is_mine s) b = cols b * rows b - num_mines b"
    using count_cells_compl[of is_mine b] length_cells[OF wf p] ex by (simp add: holds_all_mines_def)
  then have "count_cells (\<lambda>s. is_revealed s \<and> \<not> is_mine s) b = count_cells (\<lambda>s. \<not> is_mine s) b"
    using ok cnt by (simp add: count_ok_def)
  then have len: "length (filter ?P (cells b)) = length (filter ?Q (cells b))"
    by (simp add: count_cells_def)
  have x: "cell_at b q \<in> set (cells b)"
    using inb_nat_index_lt[OF wf q(1)] by (simp add: cell_at_def)
  have "?P (cell_at b q)"
    by (rule filter_same_length[of ?P ?Q, OF _ len x]) (use q(2) in \<open>simp_all add: st_def\<close>)
  then show ?thesis by (simp add: st_def)
qed

lemma check_win_keeps_cells:
  assumes wf: "wf_board b" and p: "inb b p" and ok: "count_ok b" and ex: "holds_all_mines b"
    and wn: "win_now b" and q: "inb b q"
  shows "st (check_win b) q = st b q"
proof -
  have cnt: "revealed_count b = cols b * rows b - num_mines b" using wn by (simp add: win_now_def)
  have "is_revealed (st b q) \<or> is_mine (st b q)"
    using safe_all_revealed[OF wf p ok ex cnt q] by blast
  then have "sweep_safe (st b q) = st b q" by (auto simp: sweep_safe_def)
  then show ?thesis using check_win_facts(7)[OF wf q] wn by simp
qed

text \<open>With a negative number of mines, or on a board whose cells are counted, the counter
  stays below the number that wins.\<close>

lemma no_win_negative:
  assumes wf: "wf_board b" and p: "inb b p" and ok: "count_ok b" and neg: "num_mines b < 0"
  shows "\<not> win_now b"
proof -
  have "revealed_count b \<le> cols b * rows b"
    using ok count_cells_le[of "\<lambda>s. is_revealed s \<and> \<not> is_mine s" b] length_cells[OF wf p]
    by (simp add: count_ok_def)
  then show ?thesis using neg by (simp add: win_now_def)
qed

text \<open>The mines of two boards that agree on \<open>is_mine\<close>.\<close>

lemma mine_profile:
  assumes "wf_board b" "wf_board b'" "same_shape b b'" "num_mines b' = num_mines b"
    and m: "\<And>q. inb b q \<Longrightarrow> is_mine (st b' q) = is_mine (st b q)"
  shows "holds_all_mines b' = holds_all_mines b" "pool_all_mined b' = pool_all_mined b"
proof -
  have "count_cells is_mine b' = count_cells is_mine b"
    by (rule count_cells_cong[OF assms(1-3)]) (simp add: m)
  then show "holds_all_mines b' = holds_all_mines b"
    using assms(4) by (simp add: holds_all_mines_def)
  have g: "inb b' = inb b" "neighbors b' = neighbors b" using assms(3) by (simp_all add: same_shape_geom)
  show "pool_all_mined b' = pool_all_mined b"
    unfolding pool_all_mined_def g using m by (metis (no_types, lifting))
qed

lemma mine_profile_progress:
  assumes "board_inv b" "board_inv b'" "progress b b'" "mines_placed b"
  shows "holds_all_mines b' = holds_all_mines b" "pool_all_mined b' = pool_all_mined b"
proof -
  have wf: "wf_board b" "wf_board b'" using assms(1,2) by (simp_all add: board_inv_def)
  note ps = progress_scalars(1,2)[OF assms(3)]
  have m: "is_mine (st b' q) = is_mine (st b q)" if "inb b q" for q
    using progress_mine[OF assms(3,4) that] .
  show "holds_all_mines b' = holds_all_mines b" "pool_all_mined b' = pool_all_mined b"
    using mine_profile[OF wf ps m] by simp_all
qed

lemma place_mines_profile:
  assumes sh: "is_shuffle shuf" and ib: "is_inbounds b c r"
    and wf: "wf_board b" and wf1: "wf_board b1" and ss: "same_shape b b1" and nm: "num_mines b1 = num_mines b"
    and m: "\<And>q. inb b q \<Longrightarrow> is_mine (st b1 q) = (q \<in> drawn shuf b c r)"
  shows "holds_all_mines b1 \<or> pool_all_mined b1 \<or> num_mines b1 < 0"
proof (cases "num_mines b < 0")
  case True
  then show ?thesis using nm by simp
next
  case nn: False
  have M: "drawn shuf b c r \<subseteq> {p. inb b p}" using drawn_safe(1)[OF sh] by blast
  have cnt: "count_cells is_mine b1 = int (card (drawn shuf b c r))"
    using count_mines_placed[OF wf wf1 ss M m] .
  show ?thesis
  proof (cases "num_mines b \<le> pool_size b c r")
    case True
    then have "int (card (drawn shuf b c r)) = num_mines b"
      using card_drawn[OF sh, of b c r] nn by simp
    then show ?thesis using cnt nm by (simp add: holds_all_mines_def)
  next
    case False
    then have "length (shuf (pool b c r)) \<le> nat (num_mines b)"
      using is_shuffle_facts(2)[OF sh, of "pool b c r"] nn by (simp add: pool_size_pool)
    then have "drawn shuf b c r = set (pool b c r)"
      using nn is_shuffle_facts(1)[OF sh, of "pool b c r"] by (simp add: drawn_def py_take_def)
    then have d: "q \<in> drawn shuf b c r \<longleftrightarrow> q \<noteq> (c, r) \<and> q \<notin> set (neighbors b c r)" if "inb b q" for q
      using that by (auto simp: pool_def set_all_positions_inb)
    have g: "inb b1 = inb b" "neighbors b1 = neighbors b" using ss by (simp_all add: same_shape_geom)
    have "inb b1 (c, r)" using ib g by (simp add: inb_def)
    moreover have "is_mine (st b1 p) = (p \<noteq> (c, r) \<and> p \<notin> set (neighbors b1 (fst (c, r)) (snd (c, r))))"
      if "inb b1 p" for p
      using that g m[of p] d[of p] by simp
    ultimately have "pool_all_mined b1" unfolding pool_all_mined_def by blast
    then show ?thesis by simp
  qed
qed

lemma full_inv_board_inv: "full_inv b \<Longrightarrow> board_inv b"
  by (simp add: full_inv_def)

text \<open>The two conjuncts on boards with all their mines follow from the invariant of the
  board as long as \<open>win\<close> is false.\<close>

lemma full_invI:
  assumes "board_inv b"
    and "win b \<Longrightarrow> holds_all_mines b \<Longrightarrow> count_ok b"
    and "win b \<Longrightarrow> holds_all_mines b \<Longrightarrow> \<not> game_over b \<Longrightarrow> excl b"
    and "mines_placed b \<Longrightarrow> holds_all_mines b \<or> pool_all_mined b \<or> num_mines b < 0"
  shows "full_inv b"
  using assms unfolding full_inv_def board_inv_def by blast

lemma full_inv_new_board: "full_inv (new_board cs rs m)"
  by (rule full_invI[OF inv_new_board]) (simp_all add: new_board_def)

lemma full_inv_toggle_flag:
  assumes fi: "full_inv b" and tf: "toggle_flag b c r = Some b'"
  shows "full_inv b'"
proof -
  let ?f = "\<lambda>s. s\<lparr>is_flagged := \<not> is_flagged s\<rparr>"
  have inv: "board_inv b" using fi by (rule full_inv_board_inv)
  have wf: "wf_board b" using inv by (simp add: board_inv_def)
  have inv': "board_inv b'" using inv_toggle_flag[OF inv, of c r] tf by simp
  have wf': "wf_board b'" using inv' by (simp add: board_inv_def)
  note t = toggle_flag_facts[OF wf tf]
  have cases: "b' = b \<or> (inb b (c, r) \<and> \<not> is_revealed (st b (c, r)) \<and> b' = upd_at b (c, r) ?f)"
    using tf toggle_flag_wf[OF wf, of c r] by (auto simp: inb_def split: if_splits)
  have ss: "same_shape b b'" "num_mines b' = num_mines b" "mines_placed b' = mines_placed b"
    using cases by auto
  have m: "is_mine (st b' q) = is_mine (st b q)" if "inb b q" for q using t(5) that by blast
  note mp = mine_profile[OF wf wf' ss(1,2) m]
  have rn: "(is_revealed (st b' q) \<and> \<not> is_mine (st b' q)) = (is_revealed (st b q) \<and> \<not> is_mine (st b q))"
    if "inb b q" for q using t(5) that by blast
  have ok: "count_ok b'" if "count_ok b"
  proof -
    have "count_cells (\<lambda>s. is_revealed s \<and> \<not> is_mine s) b' = count_cells (\<lambda>s. is_revealed s \<and> \<not> is_mine s) b"
      by (rule count_cells_cong[OF wf wf' ss(1)]) (rule rn)
    then show ?thesis using that t(4) by (simp add: count_ok_def)
  qed
  have ex: "excl b'" if "excl b"
  proof -
    have "\<not> (is_revealed (st b' q) \<and> is_flagged (st b' q))" if q: "inb b' q" for q
    proof -
      have iq: "inb b q" using q ss(1) by (simp add: same_shape_geom)
      have nb: "\<not> (is_revealed (st b q) \<and> is_flagged (st b q))"
        using \<open>excl b\<close> iq unfolding excl_def by blast
      from cases show ?thesis
      proof
        assume "b' = b" then show ?thesis using nb by simp
      next
        assume c: "inb b (c, r) \<and> \<not> is_revealed (st b (c, r)) \<and> b' = upd_at b (c, r) ?f"
        then have "st b' q = (if q = (c, r) then ?f (st b (c, r)) else st b q)"
          using st_upd_at[OF wf _ iq, of "(c, r)" ?f] by simp
        then show ?thesis using nb c by (cases "q = (c, r)") simp_all
      qed
    qed
    then show ?thesis unfolding excl_def by blast
  qed
  show ?thesis
  proof (rule full_invI[OF inv'])
    assume "win b'" "holds_all_mines b'"
    then show "count_ok b'" using fi mp(1) ok by (simp add: full_inv_def)
  next
    assume "win b'" "holds_all_mines b'" "\<not> game_over b'"
    then show "excl b'" using fi mp(1) ex t(2) by (simp add: full_inv_def)
  next
    assume "mines_placed b'"
    then show "holds_all_mines b' \<or> pool_all_mined b' \<or> num_mines b' < 0"
      using fi mp ss by (simp add: full_inv_def)
  qed
qed

lemma full_inv_reveal_placed:
  assumes fi: "full_inv b" and mp: "mines_placed b" and rv: "reveal shuf b c r = Some b'"
  shows "full_inv b'"
proof -
  have inv: "board_inv b" using fi by (rule full_inv_board_inv)
  have wf: "wf_board b" using inv by (simp add: board_inv_def)
  have inv': "board_inv b'" using inv_reveal_placed[OF inv mp, of shuf c r] rv by simp
  have wf': "wf_board b'" using inv' by (simp add: board_inv_def)
  have pr: "progress b b'" using reveal_placed_facts(1)[OF inv mp rv] .
  note prof = mine_profile_progress[OF inv inv' pr mp]
  have third: "holds_all_mines b' \<or> pool_all_mined b' \<or> num_mines b' < 0"
    using fi mp prof progress_scalars(2)[OF pr] by (simp add: full_inv_def)
  from inv mp rv show ?thesis
  proof (cases rule: reveal_placed_cases)
    case noop
    then show ?thesis using fi by simp
  next
    case mine
    have ss: "same_shape b b'" using progress_scalars(1)[OF pr] .
    have rn: "(is_revealed (st b' q) \<and> \<not> is_mine (st b' q)) = (is_revealed (st b q) \<and> \<not> is_mine (st b q))"
      if "inb b q" for q
      using st_lose[OF wf mine(1) that] mine(3,4) by auto
    have ok: "count_ok b'" if "count_ok b"
    proof -
      have "count_cells (\<lambda>s. is_revealed s \<and> \<not> is_mine s) b' = count_cells (\<lambda>s. is_revealed s \<and> \<not> is_mine s) b"
        by (rule count_cells_cong[OF wf wf' ss]) (rule rn)
      then show ?thesis using that mine(4) by (simp add: count_ok_def)
    qed
    have w: "win b' = win b" "game_over b'" using mine(4) by simp_all
    show ?thesis
    proof (rule full_invI[OF inv'])
      assume "win b'" "holds_all_mines b'"
      then show "count_ok b'" using fi prof(1) ok by (simp add: full_inv_def)
    next
      assume "\<not> game_over b'"
      then show "excl b'" using w(2) by simp
    next
      show "holds_all_mines b' \<or> pool_all_mined b' \<or> num_mines b' < 0" using third .
    qed
  next
    case (safe b3)
    have inv3: "board_inv b3" using inv_flood[OF inv mp safe(1,3,4)] .
    from flood_one[OF wf safe(1)] safe(4) have re: "rev_ext b b3" by auto
    have wf3: "wf_board b3" and g3: "inb b3 = inb b" and sc3: "game_over b3 = game_over b" "win b3 = win b"
      "mines_placed b3"
      using re mp by (auto simp: rev_ext_def same_shape_geom)
    have nw: "\<not> win b"
    proof
      assume "win b"
      then have "safe_shown b" using inv by (simp add: board_inv_def)
      then show False using safe(1,2,3) unfolding safe_shown_def hidden_def by blast
    qed
    have ok3: "count_ok b3" using inv3 nw sc3 by (simp add: board_inv_def)
    have p3: "inb b3 (c, r)" using safe(1) g3 by simp
    have prof3: "holds_all_mines b' = holds_all_mines b3"
      using mine_profile_progress(1)[OF inv3 inv' _ sc3(3)] progress_check_win[OF wf3] safe(5) by simp
    note cw = check_win_facts[OF wf3]
    show ?thesis
    proof (rule full_invI[OF inv'])
      assume a: "win b'" "holds_all_mines b'"
      then have wn: "win_now b3" using cw(6) safe(5) sc3 nw by simp
      have ex3: "holds_all_mines b3" using a(2) prof3 by simp
      have same: "st b' q = st b3 q" if "inb b3 q" for q
        using check_win_keeps_cells[OF wf3 p3 ok3 ex3 wn that] safe(5) by simp
      have "count_cells (\<lambda>s. is_revealed s \<and> \<not> is_mine s) b' = count_cells (\<lambda>s. is_revealed s \<and> \<not> is_mine s) b3"
        by (rule count_cells_cong[OF wf3 wf']) (use cw(1) safe(5) same in simp_all)
      then show "count_ok b'" using ok3 cw(5) safe(5) by (simp add: count_ok_def)
    next
      assume a: "win b'" "holds_all_mines b'" "\<not> game_over b'"
      then have wn: "win_now b3" using cw(6) safe(5) sc3 nw by simp
      have ex3: "holds_all_mines b3" using a(2) prof3 by simp
      have same: "st b' q = st b3 q" if "inb b3 q" for q
        using check_win_keeps_cells[OF wf3 p3 ok3 ex3 wn that] safe(5) by simp
      have "\<not> game_over b3" using wn by (simp add: win_now_def)
      then have "excl b3" using inv3 nw sc3 by (simp add: board_inv_def)
      moreover have "inb b' = inb b3" using cw(1) safe(5) by (simp add: same_shape_geom)
      ultimately show "excl b'" unfolding excl_def using same by simp
    next
      show "holds_all_mines b' \<or> pool_all_mined b' \<or> num_mines b' < 0" using third .
    qed
  qed
qed

lemma full_inv_place:
  assumes fi: "full_inv b" and np: "\<not> mines_placed b" and sh: "is_shuffle shuf" and ib: "is_inbounds b c r"
    and pl: "place_mines shuf b c r = Some b1"
  shows "full_inv b1"
proof -
  have inv: "board_inv b" using fi by (rule full_inv_board_inv)
  have wf: "wf_board b" using inv by (simp add: board_inv_def)
  from inv_place_mines[OF inv np sh, of c r] pl have
    b1: "board_inv b1" "mines_placed b1" "same_shape b b1" "num_mines b1 = num_mines b" "\<not> win b1"
    and cw: "\<forall>q. inb b q \<longrightarrow>
          is_mine (st b1 q) = (q \<in> drawn shuf b c r) \<and> \<not> is_revealed (st b1 q) \<and>
          is_flagged (st b1 q) = is_flagged (st b q)"
    by auto
  have wf1: "wf_board b1" using b1(1) by (simp add: board_inv_def)
  have m: "is_mine (st b1 q) = (q \<in> drawn shuf b c r)" if "inb b q" for q using cw that by blast
  show ?thesis
    by (rule full_invI[OF b1(1)])
       (use b1(5) place_mines_profile[OF sh ib wf wf1 b1(3,4) m] in simp_all)
qed

lemma full_inv_reveal:
  assumes fi: "full_inv b" and sh: "is_shuffle shuf" and rv: "reveal shuf b c r = Some b'"
  shows "full_inv b'"
proof (cases "mines_placed b")
  case True
  then show ?thesis using full_inv_reveal_placed[OF fi True rv] by simp
next
  case np: False
  show ?thesis
  proof (cases "is_inbounds b c r")
    case False
    then show ?thesis using rv fi by (simp add: reveal_outside)
  next
    case ib: True
    have inv: "board_inv b" using fi by (rule full_inv_board_inv)
    from inv_place_mines[OF inv np sh, of c r] obtain b1 where
      b1: "place_mines shuf b c r = Some b1" "mines_placed b1" "same_shape b b1" by blast
    have f1: "full_inv b1" using full_inv_place[OF fi np sh ib b1(1)] .
    have "reveal shuf b1 c r = Some b'" using reveal_first[OF np ib b1] rv by simp
    then show ?thesis using full_inv_reveal_placed[OF f1 b1(2)] by simp
  qed
qed

lemma full_inv_step:
  assumes "full_inv b" "is_shuffle shuf" "step shuf b x = Some b'"
  shows "full_inv b'"
proof (cases x)
  case (Reveal c r)
  then show ?thesis using assms full_inv_reveal by simp
next
  case (ToggleFlag c r)
  then show ?thesis using assms full_inv_toggle_flag by simp
next
  case (HintReveal pick)
  then have "b' = b \<or> (\<exists>c r. reveal shuf b c r = Some b')"
    using assms(3) by (auto simp: hint_reveal_def Let_def split: if_splits)
  then show ?thesis using assms(1,2) full_inv_reveal by blast
qed

lemma full_inv_run:
  assumes "full_inv b" "is_shuffle shuf" "run shuf b xs = Some b'"
  shows "full_inv b'"
  using assms(1,3)
proof (induction xs arbitrary: b)
  case Nil
  then show ?case by simp
next
  case (Cons x xs)
  then obtain b1 where b1: "step shuf b x = Some b1" "run shuf b1 xs = Some b'"
    by (auto split: option.splits)
  from Cons.IH[OF full_inv_step[OF Cons.prems(1) assms(2) b1(1)] b1(2)] show ?case .
qed

lemma reachable_full:
  assumes "is_shuffle shuf" "run shuf (new_board cs rs m) xs = Some b"
  shows "full_inv b"
  using full_inv_run[OF full_inv_new_board assms] .

section \<open>The cells that a reveal of a safe cell shows\<close>

lemma reveal_placed_sharp:
  assumes fi: "full_inv b" and mp: "mines_placed b" and rv: "reveal shuf b c r = Some b'"
    and p: "inb b (c, r)" and h: "hidden b (c, r)" and nm: "\<not> is_mine (st b (c, r))"
    and q: "inb b q"
  shows "is_revealed (st b' q) \<longleftrightarrow>
           is_revealed (st b q) \<or> q \<in> flood_set b {(c, r)} \<or>
           (win b' \<and> \<not> win b \<and> \<not> holds_all_mines b \<and> \<not> is_mine (st b q))"
proof -
  have inv: "board_inv b" using fi by (rule full_inv_board_inv)
  have wf: "wf_board b" using inv by (simp add: board_inv_def)
  have five: "is_revealed (st b' q) \<longleftrightarrow>
                 is_revealed (st b q) \<or> q \<in> flood_set b {(c, r)} \<or>
                 (win b' \<and> \<not> win b \<and> \<not> is_mine (st b q))"
  proof -
    have "is_inbounds b c r \<and> hidden b (c, r) \<and> \<not> is_mine (st b (c, r))"
      using p h nm by (simp add: inb_def)
    from reveal_placed_facts(5)[OF inv mp rv, rule_format, OF this q] show ?thesis .
  qed
  have "is_revealed (st b q) \<or> q \<in> flood_set b {(c, r)}"
    if w: "win b'" "\<not> win b" and ha: "holds_all_mines b" and sq: "\<not> is_mine (st b q)"
  proof -
    from inv mp rv show ?thesis
    proof (cases rule: reveal_placed_cases)
      case noop
      then show ?thesis using w by simp
    next
      case mine
      then show ?thesis using nm by simp
    next
      case (safe b3)
      have inv3: "board_inv b3" using inv_flood[OF inv mp safe(1,3,4)] .
      from flood_one[OF wf safe(1)] safe(4) have re: "rev_ext b b3"
        and ch: "\<And>q. inb b q \<Longrightarrow> (is_revealed (st b3 q) \<longleftrightarrow> is_revealed (st b q) \<or> q \<in> flood_set b {(c, r)})"
        by auto
      have wf3: "wf_board b3" and g3: "inb b3 = inb b" and sc3: "win b3 = win b"
        and ss3: "same_shape b b3" "num_mines b3 = num_mines b"
        using re by (auto simp: rev_ext_def same_shape_geom)
      have m3: "is_mine (st b3 x) = is_mine (st b x)" if "inb b x" for x
        using re that unfolding rev_ext_def by blast
      have ha3: "holds_all_mines b3" using mine_profile(1)[OF wf wf3 ss3 m3] ha by simp
      have ok3: "count_ok b3" using inv3 w(2) sc3 by (simp add: board_inv_def)
      note cw = check_win_facts[OF wf3]
      have wn: "win_now b3" using cw(6) safe(5) sc3 w by simp
      then have cnt: "revealed_count b3 = cols b3 * rows b3 - num_mines b3" by (simp add: win_now_def)
      have "is_revealed (st b3 q)"
        by (rule safe_all_revealed[OF wf3 _ ok3 ha3 cnt]) (use p q g3 m3[OF q] sq in simp_all)
      then show ?thesis using ch[OF q] by simp
    qed
  qed
  then show ?thesis using five by blast
qed



section \<open>The closure of a cell with no adjacent mine\<close>

lemma neighbors_sym:
  assumes "inb b p" "q \<in> set (neighbors b (fst p) (snd p))"
  shows "p \<in> set (neighbors b (fst q) (snd q))"
  using assms by (auto simp: neighbors_moore inb_def)

lemma closure_inb:
  assumes "inb b p" "q \<in> zero_closure b p"
  shows "inb b q"
  using assms(2) by (induction rule: zero_closure.induct) (use assms(1) in \<open>auto dest: neighbors_inb\<close>)

lemma closure_safe:
  assumes "adj_ok b" "inb b p" "\<not> is_mine (st b p)" "q \<in> zero_closure b p"
  shows "\<not> is_mine (st b q)"
  using assms(4)
proof (induction rule: zero_closure.induct)
  case origin
  then show ?case using assms(3) .
next
  case (border x q)
  have "inb b x" using closure_inb[OF assms(2) border.hyps(1)] .
  then show ?case using adj_ok_zero[OF assms(1) _ border.IH border.hyps(2,3)] by simp
qed

text \<open>The flood fill reaches the whole closure unless a flag or a revealed cell with no
  adjacent mine stops it.\<close>

lemma closure_complete:
  assumes h: "hidden b p"
    and free: "\<forall>x\<in>zero_closure b p. \<not> is_flagged (st b x) \<and> (adjacent (st b x) = 0 \<longrightarrow> \<not> is_revealed (st b x))"
    and q: "q \<in> zero_closure b p"
  shows "is_revealed (st b q) \<or> q \<in> flood_set b {p}"
  using q
proof (induction rule: zero_closure.induct)
  case origin
  then show ?case using h by (auto intro: flood_set.start)
next
  case (border x q)
  have "\<not> is_revealed (st b x)" using free border.hyps(1,2) by blast
  then have x: "x \<in> flood_set b {p}" using border.IH by simp
  have "q \<in> zero_closure b p" using zero_closure.border[OF border.hyps(1,2,3)] .
  then have nf: "\<not> is_flagged (st b q)" using free by blast
  show ?case
  proof (cases "is_revealed (st b q)")
    case True
    then show ?thesis by simp
  next
    case False
    then have "hidden b q" using nf by (simp add: hidden_def)
    then show ?thesis using flood_set.spread[OF x border.hyps(2,3)] by simp
  qed
qed

text \<open>On a board whose pool was too small, the closure of a safe cell with no adjacent
  mine holds every safe cell.\<close>

lemma under_closure:
  assumes adj: "adj_ok b" and pm: "pool_all_mined b"
    and p: "inb b p" "\<not> is_mine (st b p)" "adjacent (st b p) = 0"
    and q: "inb b q" "\<not> is_mine (st b q)"
  shows "q \<in> zero_closure b p"
proof -
  from pm obtain s where s: "inb b s"
    and m: "\<And>x. inb b x \<Longrightarrow> is_mine (st b x) = (x \<noteq> s \<and> x \<notin> set (neighbors b (fst s) (snd s)))"
    unfolding pool_all_mined_def by blast
  have ns: "s \<notin> set (neighbors b (fst s) (snd s))" using not_self_neighbor[of "fst s" "snd s" b] by simp
  have sm: "\<not> is_mine (st b s)" using m[OF s] by simp
  have "filter (\<lambda>x. is_mine (st b x)) (neighbors b (fst s) (snd s)) = []"
    using m neighbors_inb[of _ b "fst s" "snd s"] by (auto simp: filter_empty_conv)
  moreover have "adjacent (st b s) = mine_neighbors b s"
    using adj s sm unfolding adj_ok_def by blast
  ultimately have s0: "adjacent (st b s) = 0"
    by (simp add: mine_neighbors_def)
  have sc: "s \<in> zero_closure b p"
  proof (cases "p = s")
    case True
    then show ?thesis by (simp add: zero_closure.origin)
  next
    case False
    then have "p \<in> set (neighbors b (fst s) (snd s))" using m[OF p(1)] p(2) by simp
    then have "s \<in> set (neighbors b (fst p) (snd p))" using neighbors_sym[OF s] by simp
    then show ?thesis using zero_closure.border[OF zero_closure.origin p(3)] by simp
  qed
  show ?thesis
  proof (cases "q = s")
    case True
    then show ?thesis using sc by simp
  next
    case False
    then have "q \<in> set (neighbors b (fst s) (snd s))" using m[OF q(1)] q(2) by simp
    then show ?thesis using zero_closure.border[OF sc s0] by simp
  qed
qed

section \<open>The claims on the revealed cells\<close>


lemma run_row3_short_won:
  "run no_shuffle (new_board 3 1 2) [ToggleFlag 0 0, ToggleFlag 2 0, Reveal 1 0] = Some row3_short_won"
  by code_simp




text \<open>
  C1. The claim fails in two kinds of boards. After a loss: the mine that a reveal hits,
  and the mines that the sweep after it reveals, are revealed without a change of
  \<open>revealed_count\<close>. After a win on a board that holds fewer mines than \<open>num_mines\<close> (the
  pool of \<^verbatim>\<open>place_mines\<close> was shorter than \<open>num_mines\<close>): the sweep of the win check reveals
  the remaining cells that are not mines without a change of \<open>revealed_count\<close>. What holds
  in every board that a list of calls reaches: when \<open>win\<close> is false or the board holds
  \<open>num_mines\<close> mines, \<open>revealed_count\<close> is the number of revealed cells that are not
  mines; when moreover \<open>game_over\<close> is false, it is the number of revealed cells.
\<close>

theorem revealed_count_counts_revealed_cells:
  assumes "is_shuffle shuf" and "run shuf (new_board cs rs m) ops = Some b"
  shows "(\<not> win b \<or> count_cells is_mine b = num_mines b \<longrightarrow>
            revealed_count b = count_cells (\<lambda>s. is_revealed s \<and> \<not> is_mine s) b) \<and>
         (\<not> game_over b \<and> (\<not> win b \<or> count_cells is_mine b = num_mines b) \<longrightarrow>
            revealed_count b = count_cells is_revealed b)"
proof -
  have fi: "full_inv b" using reachable_full[OF assms] .
  then have inv: "board_inv b" by (rule full_inv_board_inv)
  then have wf: "wf_board b" by (simp add: board_inv_def)
  have 1: "revealed_count b = count_cells (\<lambda>s. is_revealed s \<and> \<not> is_mine s) b"
    if "\<not> win b \<or> count_cells is_mine b = num_mines b"
  proof -
    have "count_ok b" using that inv fi by (auto simp: board_inv_def full_inv_def holds_all_mines_def)
    then show ?thesis by (simp add: count_ok_def)
  qed
  have 2: "revealed_count b = count_cells is_revealed b"
    if "\<not> game_over b" "\<not> win b \<or> count_cells is_mine b = num_mines b"
  proof -
    have "mines_hidden b" using inv that(1) by (simp add: board_inv_def)
    then have "count_cells (\<lambda>s. is_revealed s \<and> is_mine s) b = 0"
      unfolding mines_hidden_def by (intro count_cells_zero[OF wf]) blast
    then show ?thesis
      using 1[OF that(2)] count_cells_split[of is_revealed b is_mine] by simp
  qed
  show ?thesis using 1 2 by blast
qed

theorem revealed_count_counts_revealed_cells_witness:
  "is_shuffle no_shuffle \<and>
   run no_shuffle (new_board 4 1 1) [Reveal 0 0, Reveal 3 0] = Some row4_won \<and>
   win row4_won \<and> \<not> game_over row4_won \<and> count_cells is_mine row4_won = num_mines row4_won \<and>
   revealed_count row4_won = count_cells (\<lambda>s. is_revealed s \<and> \<not> is_mine s) row4_won \<and>
   revealed_count row4_won = count_cells is_revealed row4_won"
proof -
  have h: "win row4_won" "\<not> game_over row4_won" "count_cells is_mine row4_won = num_mines row4_won"
    by code_simp+
  from revealed_count_counts_revealed_cells[OF is_shuffle_no_shuffle run_row4_won]
  show ?thesis using h is_shuffle_no_shuffle run_row4_won by blast
qed

theorem revealed_count_counterexample:
  "run no_shuffle (new_board 4 1 1) [Reveal 0 0, Reveal 2 0] = Some row4_lost \<and>
   game_over row4_lost \<and> \<not> win row4_lost \<and>
   revealed_count row4_lost = 2 \<and> count_cells is_revealed row4_lost = 3 \<and>
   run no_shuffle (new_board 3 1 2) [ToggleFlag 0 0, ToggleFlag 2 0, Reveal 1 0] = Some row3_short_won \<and>
   win row3_short_won \<and> \<not> game_over row3_short_won \<and>
   count_cells is_mine row3_short_won = 0 \<and> num_mines row3_short_won = 2 \<and>
   revealed_count row3_short_won = 1 \<and> count_cells is_revealed row3_short_won = 3 \<and>
   count_cells (\<lambda>s. is_revealed s \<and> \<not> is_mine s) row3_short_won = 3"
proof -
  have "game_over row4_lost" "\<not> win row4_lost"
    "revealed_count row4_lost = 2" "count_cells is_revealed row4_lost = 3"
    "win row3_short_won" "\<not> game_over row3_short_won"
    "count_cells is_mine row3_short_won = 0" "num_mines row3_short_won = 2"
    "revealed_count row3_short_won = 1" "count_cells is_revealed row3_short_won = 3"
    "count_cells (\<lambda>s. is_revealed s \<and> \<not> is_mine s) row3_short_won = 3"
    by code_simp+
  then show ?thesis using run_row4_lost run_row3_short_won by simp
qed




section \<open>The claim on the flood fill\<close>

lemma flood_set_in_closure: "q \<in> flood_set b {p} \<Longrightarrow> q \<in> zero_closure b p"
  by (induction rule: flood_set.induct) (auto intro: zero_closure.intros)

lemma run_row3_flagged:
  "run no_shuffle (new_board 3 1 0) [ToggleFlag 1 0, Reveal 0 0] = Some row3_flagged"
  by code_simp

lemma reveal_row3_flagged: "reveal no_shuffle row3_flagged 2 0 = Some row3_after"
  by code_simp

text \<open>A reveal that wins on a board that holds a number of mines other than \<open>num_mines\<close>:
  the pool of the placement was too small.\<close>

lemma reveal_placed_win_pool:
  assumes fi: "full_inv b" and mp: "mines_placed b" and rv: "reveal shuf b c r = Some b'"
    and w: "win b'" "\<not> win b" and nh: "\<not> holds_all_mines b"
  shows "pool_all_mined b"
proof -
  have inv: "board_inv b" using fi by (rule full_inv_board_inv)
  have wf: "wf_board b" using inv by (simp add: board_inv_def)
  have "\<not> num_mines b < 0"
  proof
    assume neg: "num_mines b < 0"
    from inv mp rv show False
    proof (cases rule: reveal_placed_cases)
      case noop
      then show ?thesis using w by simp
    next
      case mine
      then show ?thesis using w by simp
    next
      case (safe b3)
      have inv3: "board_inv b3" using inv_flood[OF inv mp safe(1,3,4)] .
      from flood_one[OF wf safe(1)] safe(4) have re: "rev_ext b b3" by auto
      have wf3: "wf_board b3" and g3: "inb b3 = inb b" and sc3: "win b3 = win b"
        "num_mines b3 = num_mines b"
        using re by (auto simp: rev_ext_def same_shape_geom)
      have ok3: "count_ok b3" using inv3 w(2) sc3 by (simp add: board_inv_def)
      have "\<not> win_now b3"
        by (rule no_win_negative[OF wf3 _ ok3]) (use safe(1) g3 sc3 neg in simp_all)
      then show ?thesis using check_win_facts(6)[OF wf3] safe(5) sc3 w by simp
    qed
  qed
  then show ?thesis using fi mp nh by (simp add: full_inv_def)
qed

text \<open>
  C7. The claim fails: the flood fill neither reveals nor passes a flagged cell, and it
  does not pass a cell that is already revealed, so cells of the region can stay
  unrevealed. What holds in a board that a list of calls reaches, with the mines placed,
  for a reveal on an in-bounds cell that is neither revealed nor flagged, is not a mine and
  has \<open>adjacent = 0\<close>, where the region \<open>zero_closure\<close> of that cell is the cell itself and
  every neighbor of a cell of the region that has \<open>adjacent = 0\<close>: every cell that the call
  reveals lies in the region; the call reveals every cell of the region when, before the
  call, no cell of the region is flagged and no cell of the region with \<open>adjacent = 0\<close> is
  revealed, and also when the call wins the game; and the cells revealed after the call
  are those revealed before, those that the fill reaches from the cell through cells that
  are neither revealed nor flagged, going on only from cells with \<open>adjacent = 0\<close> (the set
  \<open>flood_set\<close>), and, when the call wins the game on a board that holds a number of mines
  other than \<open>num_mines\<close>, the cells that are not mines.
\<close>

theorem reveal_fills_closure:
  assumes "is_shuffle shuf" and "run shuf (new_board cs rs m) ops = Some b"
    and "mines_placed b" and "is_inbounds b c r"
    and "\<not> is_revealed (st b (c, r))" and "\<not> is_flagged (st b (c, r))"
    and "\<not> is_mine (st b (c, r))" and "adjacent (st b (c, r)) = 0"
  shows "\<exists>b'. reveal shuf b c r = Some b' \<and>
           (\<forall>q. inb b q \<and> is_revealed (st b' q) \<and> \<not> is_revealed (st b q) \<longrightarrow>
              q \<in> zero_closure b (c, r)) \<and>
           ((\<forall>q\<in>zero_closure b (c, r).
               \<not> is_flagged (st b q) \<and> (adjacent (st b q) = 0 \<longrightarrow> \<not> is_revealed (st b q))) \<or>
            win b' \<longrightarrow>
            (\<forall>q\<in>zero_closure b (c, r). is_revealed (st b' q))) \<and>
           (\<forall>q. inb b q \<longrightarrow>
              (is_revealed (st b' q) \<longleftrightarrow>
                 is_revealed (st b q) \<or> q \<in> flood_set b {(c, r)} \<or>
                 (win b' \<and> \<not> win b \<and> count_cells is_mine b \<noteq> num_mines b \<and>
                  \<not> is_mine (st b q))))"
proof -
  have fi: "full_inv b" using reachable_full[OF assms(1,2)] .
  then have inv: "board_inv b" by (rule full_inv_board_inv)
  then have adj: "adj_ok b" using assms(3) by (simp add: board_inv_def)
  have p: "inb b (c, r)" using assms(4) by (simp add: inb_def)
  have h: "hidden b (c, r)" using assms(5,6) by (simp add: hidden_def)
  from inv_reveal[OF inv assms(1), of c r] obtain b' where
    b': "reveal shuf b c r = Some b'" and inv': "board_inv b'" by blast
  have pr: "progress b b'" using reveal_placed_facts(1)[OF inv assms(3) b'] .
  have ch: "is_revealed (st b' q) \<longleftrightarrow>
              is_revealed (st b q) \<or> q \<in> flood_set b {(c, r)} \<or>
              (win b' \<and> \<not> win b \<and> count_cells is_mine b \<noteq> num_mines b \<and> \<not> is_mine (st b q))"
    if "inb b q" for q
    using reveal_placed_sharp[OF fi assms(3) b' p h assms(7) that] by (simp add: holds_all_mines_def)
  have 1: "q \<in> zero_closure b (c, r)"
    if q: "inb b q" "is_revealed (st b' q)" "\<not> is_revealed (st b q)" for q
  proof (cases "q \<in> flood_set b {(c, r)}")
    case True
    then show ?thesis by (rule flood_set_in_closure)
  next
    case False
    then have w: "win b'" "\<not> win b" "\<not> holds_all_mines b" "\<not> is_mine (st b q)"
      using ch[OF q(1)] q(2,3) by (auto simp: holds_all_mines_def)
    have "pool_all_mined b" using reveal_placed_win_pool[OF fi assms(3) b' w(1-3)] .
    then show ?thesis using under_closure[OF adj _ p assms(7,8) q(1) w(4)] by simp
  qed
  have 2: "is_revealed (st b' q)"
    if free: "\<forall>q\<in>zero_closure b (c, r).
               \<not> is_flagged (st b q) \<and> (adjacent (st b q) = 0 \<longrightarrow> \<not> is_revealed (st b q))"
      and q: "q \<in> zero_closure b (c, r)" for q
  proof -
    have "inb b q" using closure_inb[OF p q] .
    then show ?thesis using ch closure_complete[OF h free q] by blast
  qed
  have 3: "is_revealed (st b' q)" if w: "win b'" and q: "q \<in> zero_closure b (c, r)" for q
  proof -
    have iq: "inb b q" using closure_inb[OF p q] .
    have "\<not> is_mine (st b q)" using closure_safe[OF adj p assms(7) q] .
    then have "\<not> is_mine (st b' q)" using progress_mine[OF pr assms(3) iq] by simp
    moreover have "inb b' q" using iq progress_scalars(1)[OF pr] by (simp add: same_shape_geom)
    moreover have "safe_shown b'" using inv' w by (simp add: board_inv_def)
    ultimately show ?thesis unfolding safe_shown_def by blast
  qed
  have 4: "\<forall>q\<in>zero_closure b (c, r). is_revealed (st b' q)"
    if "(\<forall>q\<in>zero_closure b (c, r).
               \<not> is_flagged (st b q) \<and> (adjacent (st b q) = 0 \<longrightarrow> \<not> is_revealed (st b q))) \<or>
        win b'"
    using that 2 3 by blast
  show ?thesis using b' 1 4 ch by blast
qed

lemma run_row5_opened: "run no_shuffle (new_board 5 1 1) [Reveal 0 0] = Some row5_opened"
  by code_simp

lemma reveal_row5_opened: "reveal no_shuffle row5_opened 4 0 = Some row5_won"
  by code_simp

lemma closure_row5_opened: "zero_closure row5_opened (4, 0) = {(4, 0), (3, 0)}"
proof -
  have a: "adjacent (st row5_opened (4, 0)) = 0" "adjacent (st row5_opened (3, 0)) \<noteq> 0"
    by code_simp+
  have n: "set (neighbors row5_opened 4 0) = {(3, 0)}" by code_simp
  have "q = (4, 0) \<or> q = (3, 0)" if "q \<in> zero_closure row5_opened (4, 0)" for q
    using that
  proof (induction rule: zero_closure.induct)
    case origin
    then show ?case by simp
  next
    case (border x q)
    then have "x = (4, 0)" using a(2) by auto
    then show ?case using border.hyps(3) n by simp
  qed
  moreover have "(3, 0) \<in> zero_closure row5_opened (4, 0)"
    by (rule zero_closure.border[OF zero_closure.origin a(1)]) (simp add: n)
  moreover have "(4, 0) \<in> zero_closure row5_opened (4, 0)" by (rule zero_closure.origin)
  ultimately show ?thesis by blast
qed

theorem reveal_fills_closure_witness:
  "is_shuffle no_shuffle \<and> run no_shuffle (new_board 5 1 1) [Reveal 0 0] = Some row5_opened \<and>
   mines_placed row5_opened \<and> is_inbounds row5_opened 4 0 \<and>
   \<not> is_revealed (st row5_opened (4, 0)) \<and> \<not> is_flagged (st row5_opened (4, 0)) \<and>
   \<not> is_mine (st row5_opened (4, 0)) \<and> adjacent (st row5_opened (4, 0)) = 0 \<and>
   reveal no_shuffle row5_opened 4 0 = Some row5_won \<and>
   zero_closure row5_opened (4, 0) = {(4, 0), (3, 0)} \<and>
   \<not> is_flagged (st row5_opened (3, 0)) \<and> adjacent (st row5_opened (3, 0)) = 1 \<and>
   is_revealed (st row5_won (4, 0)) \<and> is_revealed (st row5_won (3, 0)) \<and>
   inb row5_opened (3, 0) \<and> \<not> is_revealed (st row5_opened (3, 0)) \<and>
   (3, 0) \<in> flood_set row5_opened {(4, 0)} \<and>
   inb row5_opened (2, 0) \<and> \<not> is_revealed (st row5_won (2, 0)) \<and>
   (2, 0) \<notin> flood_set row5_opened {(4, 0)}"
proof -
  have h: "mines_placed row5_opened" "is_inbounds row5_opened 4 0"
    "\<not> is_revealed (st row5_opened (4, 0))" "\<not> is_flagged (st row5_opened (4, 0))"
    "\<not> is_mine (st row5_opened (4, 0))" "adjacent (st row5_opened (4, 0)) = 0"
    by code_simp+
  have k: "\<not> is_flagged (st row5_opened (3, 0))" "adjacent (st row5_opened (3, 0)) = 1"
    "inb row5_opened (3, 0)" "\<not> is_revealed (st row5_opened (3, 0))"
    "inb row5_opened (2, 0)" "\<not> is_revealed (st row5_won (2, 0))"
    "count_cells is_mine row5_opened = num_mines row5_opened"
    by code_simp+
  from reveal_fills_closure[OF is_shuffle_no_shuffle run_row5_opened h]
  obtain b' where b': "reveal no_shuffle row5_opened 4 0 = Some b'"
    and all': "(\<forall>q\<in>zero_closure row5_opened (4, 0).
               \<not> is_flagged (st row5_opened q) \<and>
               (adjacent (st row5_opened q) = 0 \<longrightarrow> \<not> is_revealed (st row5_opened q))) \<or>
            win b' \<longrightarrow>
            (\<forall>q\<in>zero_closure row5_opened (4, 0). is_revealed (st b' q))"
    and ch': "\<forall>q. inb row5_opened q \<longrightarrow>
              (is_revealed (st b' q) \<longleftrightarrow>
                 is_revealed (st row5_opened q) \<or> q \<in> flood_set row5_opened {(4, 0)} \<or>
                 (win b' \<and> \<not> win row5_opened \<and>
                  count_cells is_mine row5_opened \<noteq> num_mines row5_opened \<and>
                  \<not> is_mine (st row5_opened q)))"
    by blast
  have e: "b' = row5_won" using b' reveal_row5_opened by simp
  have ch: "\<forall>q. inb row5_opened q \<longrightarrow>
              (is_revealed (st row5_won q) \<longleftrightarrow>
                 is_revealed (st row5_opened q) \<or> q \<in> flood_set row5_opened {(4, 0)} \<or>
                 (win row5_won \<and> \<not> win row5_opened \<and>
                  count_cells is_mine row5_opened \<noteq> num_mines row5_opened \<and>
                  \<not> is_mine (st row5_opened q)))"
    using ch' unfolding e .
  have "\<forall>q\<in>zero_closure row5_opened (4, 0).
               \<not> is_flagged (st row5_opened q) \<and>
               (adjacent (st row5_opened q) = 0 \<longrightarrow> \<not> is_revealed (st row5_opened q))"
    unfolding closure_row5_opened using h(3,4) k(1,2) by simp
  with all' have "\<forall>q\<in>zero_closure row5_opened (4, 0). is_revealed (st row5_won q)"
    unfolding e by blast
  then have r: "is_revealed (st row5_won (4, 0))" "is_revealed (st row5_won (3, 0))"
    unfolding closure_row5_opened by simp_all
  have f3: "(3, 0) \<in> flood_set row5_opened {(4, 0)}"
    using ch[rule_format, OF k(3)] k(4,7) r(2) by blast
  have f2: "(2, 0) \<notin> flood_set row5_opened {(4, 0)}"
    using ch[rule_format, OF k(5)] k(6) by blast
  show ?thesis
    using h k(1-6) r f3 f2 is_shuffle_no_shuffle run_row5_opened reveal_row5_opened closure_row5_opened
    by simp
qed

lemma run_row5_gap:
  "run no_shuffle (new_board 5 1 0)
     [ToggleFlag 1 0, ToggleFlag 3 0, Reveal 2 0, ToggleFlag 1 0, ToggleFlag 3 0] = Some row5_gap"
  by code_simp

lemma reveal_row5_gap: "reveal no_shuffle row5_gap 0 0 = Some row5_gap_after"
  by code_simp

theorem reveal_fills_closure_counterexample:
  "run no_shuffle (new_board 3 1 0) [ToggleFlag 1 0, Reveal 0 0] = Some row3_flagged \<and>
   mines_placed row3_flagged \<and> is_inbounds row3_flagged 2 0 \<and>
   \<not> is_revealed (st row3_flagged (2, 0)) \<and> \<not> is_flagged (st row3_flagged (2, 0)) \<and>
   \<not> is_mine (st row3_flagged (2, 0)) \<and> adjacent (st row3_flagged (2, 0)) = 0 \<and>
   (1, 0) \<in> zero_closure row3_flagged (2, 0) \<and> adjacent (st row3_flagged (1, 0)) = 0 \<and>
   is_flagged (st row3_flagged (1, 0)) \<and>
   reveal no_shuffle row3_flagged 2 0 = Some row3_after \<and>
   \<not> is_revealed (st row3_after (1, 0)) \<and>
   run no_shuffle (new_board 5 1 0)
     [ToggleFlag 1 0, ToggleFlag 3 0, Reveal 2 0, ToggleFlag 1 0, ToggleFlag 3 0] = Some row5_gap \<and>
   mines_placed row5_gap \<and> is_inbounds row5_gap 0 0 \<and>
   \<not> is_revealed (st row5_gap (0, 0)) \<and> \<not> is_flagged (st row5_gap (0, 0)) \<and>
   \<not> is_mine (st row5_gap (0, 0)) \<and> adjacent (st row5_gap (0, 0)) = 0 \<and>
   flagged_count row5_gap = 0 \<and>
   (3, 0) \<in> zero_closure row5_gap (0, 0) \<and> adjacent (st row5_gap (3, 0)) = 0 \<and>
   is_revealed (st row5_gap (2, 0)) \<and> adjacent (st row5_gap (2, 0)) = 0 \<and>
   reveal no_shuffle row5_gap 0 0 = Some row5_gap_after \<and>
   \<not> is_revealed (st row5_gap_after (3, 0))"
proof -
  have h: "mines_placed row3_flagged" "is_inbounds row3_flagged 2 0"
    "\<not> is_revealed (st row3_flagged (2, 0))" "\<not> is_flagged (st row3_flagged (2, 0))"
    "\<not> is_mine (st row3_flagged (2, 0))" "adjacent (st row3_flagged (2, 0)) = 0"
    "adjacent (st row3_flagged (1, 0)) = 0" "is_flagged (st row3_flagged (1, 0))"
    "\<not> is_revealed (st row3_after (1, 0))"
    by code_simp+
  have n: "(1, 0) \<in> set (neighbors row3_flagged (fst (2, 0)) (snd (2, 0)))" by code_simp
  have c3: "(1, 0) \<in> zero_closure row3_flagged (2, 0)"
    by (rule zero_closure.border[OF zero_closure.origin h(6) n])
  have g: "mines_placed row5_gap" "is_inbounds row5_gap 0 0"
    "\<not> is_revealed (st row5_gap (0, 0))" "\<not> is_flagged (st row5_gap (0, 0))"
    "\<not> is_mine (st row5_gap (0, 0))" "adjacent (st row5_gap (0, 0)) = 0"
    "flagged_count row5_gap = 0"
    "adjacent (st row5_gap (3, 0)) = 0" "is_revealed (st row5_gap (2, 0))"
    "adjacent (st row5_gap (2, 0)) = 0" "adjacent (st row5_gap (1, 0)) = 0"
    "\<not> is_revealed (st row5_gap_after (3, 0))"
    by code_simp+
  have n1: "(1, 0) \<in> set (neighbors row5_gap (fst (0, 0)) (snd (0, 0)))" by code_simp
  have n2: "(2, 0) \<in> set (neighbors row5_gap (fst (1, 0)) (snd (1, 0)))" by code_simp
  have n3: "(3, 0) \<in> set (neighbors row5_gap (fst (2, 0)) (snd (2, 0)))" by code_simp
  have c1: "(1, 0) \<in> zero_closure row5_gap (0, 0)"
    by (rule zero_closure.border[OF zero_closure.origin g(6) n1])
  have c2: "(2, 0) \<in> zero_closure row5_gap (0, 0)"
    by (rule zero_closure.border[OF c1 g(11) n2])
  have c5: "(3, 0) \<in> zero_closure row5_gap (0, 0)"
    by (rule zero_closure.border[OF c2 g(10) n3])
  show ?thesis
    using h c3 g c5 run_row3_flagged reveal_row3_flagged run_row5_gap reveal_row5_gap by blast
qed

end
